theory Spec2Isabelle
  imports Main "HOL-Library.AList" "HOL-Library.Multiset"
begin

section \<open>Python values and exceptions\<close>

text \<open>
  The three modules are Python 2 scripts. An exception is a value of \<open>error\<close>; a
  computation that may raise returns \<open>error + 'a\<close>, with \<open>Inl\<close> for the exception.
\<close>

datatype error =
    AssertionError
  | KeyError string
  | ValueError
  | IndexError
  | TypeError
  | ZeroDivisionError
  | AttributeError
  | OverflowError

definition and_then :: "error + 'a \<Rightarrow> ('a \<Rightarrow> error + 'b) \<Rightarrow> error + 'b" where
  "and_then m f = (case m of Inl e \<Rightarrow> Inl e | Inr v \<Rightarrow> f v)"

text \<open>\<^verbatim>\<open>assert c\<close>, where evaluating \<open>c\<close> may itself raise.\<close>

definition py_assert :: "error + bool \<Rightarrow> error + unit" where
  "py_assert c = and_then c (\<lambda>b. if b then Inr () else Inl AssertionError)"

text \<open>\<^verbatim>\<open>max(xs)\<close>: ValueError on an empty sequence.\<close>

definition py_max :: "'a::linorder list \<Rightarrow> error + 'a" where
  "py_max xs = (case xs of [] \<Rightarrow> Inl ValueError | x # rest \<Rightarrow> Inr (fold max rest x))"

subsection \<open>Strings\<close>

definition is_digit :: "char \<Rightarrow> bool" where
  "is_digit c = (c \<in> set ''0123456789'')"

definition is_space :: "char \<Rightarrow> bool" where
  "is_space c = (c \<in> set [CHR '' '', CHR 0x09, CHR 0x0A, CHR 0x0B, CHR 0x0C, CHR 0x0D])"

definition digit_val :: "char \<Rightarrow> nat" where
  "digit_val c = of_char c - 48"

definition digit_char :: "nat \<Rightarrow> char" where
  "digit_char d = ''0123456789'' ! d"

text \<open>\<^verbatim>\<open>s.strip()\<close>, as \<^verbatim>\<open>int(s)\<close> applies it.\<close>

definition strip :: "string \<Rightarrow> string" where
  "strip s = rev (dropWhile is_space (rev (dropWhile is_space s)))"

definition digits_value :: "string \<Rightarrow> nat" where
  "digits_value ds = foldl (\<lambda>acc c. 10 * acc + digit_val c) 0 ds"

text \<open>
  \<^verbatim>\<open>int(s)\<close> on a byte string, base 10: surrounding whitespace, an optional sign, then
  one or more decimal digits; anything else is a ValueError.
\<close>

definition py_int :: "string \<Rightarrow> error + int" where
  "py_int s =
     (let t = strip s;
          sg = (case t of [] \<Rightarrow> 1 | c # _ \<Rightarrow> if c = CHR ''-'' then - 1 else 1);
          ds = (case t of [] \<Rightarrow> [] | c # r \<Rightarrow> if c = CHR ''-'' \<or> c = CHR ''+'' then r else t)
      in if ds \<noteq> [] \<and> list_all is_digit ds then Inr (sg * int (digits_value ds))
         else Inl ValueError)"

text \<open>\<^verbatim>\<open>s.split(sep)\<close> with a one-character separator: never an empty list.\<close>

fun split_on :: "char \<Rightarrow> string \<Rightarrow> string list" where
  "split_on sep [] = [[]]"
| "split_on sep (c # cs) =
     (if c = sep then [] # split_on sep cs
      else (let r = split_on sep cs in (c # hd r) # tl r))"

text \<open>The decimal digits of a natural number, and \<^verbatim>\<open>'%02d' % i\<close> for \<open>i \<ge> 0\<close>.\<close>

fun dec :: "nat \<Rightarrow> string" where
  "dec n = (if n < 10 then [digit_char n] else dec (n div 10) @ [digit_char (n mod 10)])"

declare dec.simps [simp del]

definition fmt02 :: "nat \<Rightarrow> string" where
  "fmt02 i = (if i < 10 then CHR ''0'' # dec i else dec i)"

text \<open>
  \<^verbatim>\<open>re.match(prefix + r'\d+', k)\<close> for a literal prefix: the match is anchored at the
  start of \<open>k\<close> only, so \<open>k\<close> is the prefix, a digit, and anything after it.
\<close>

definition re_match_index :: "string \<Rightarrow> string \<Rightarrow> bool" where
  "re_match_index prefix k =
     (take (length prefix) k = prefix \<and>
      (case drop (length prefix) k of [] \<Rightarrow> False | c # _ \<Rightarrow> is_digit c))"

section \<open>strephit/annotation/parse\_results.py\<close>

subsection \<open>Dictionaries\<close>

text \<open>
  A row of the results file, as \<^verbatim>\<open>csv.DictReader\<close> yields it: column name to cell,
  both byte strings. Rows shorter or longer than the header are left out: for a shorter
  row the reader fills the missing cells with None, and for a longer one it puts the
  cells left over under the key None, on which \<^verbatim>\<open>re.match\<close> of line 22 raises TypeError.
  Every statement below about rows is a statement about rows as long as the header.
  A dictionary is an association list in insertion order; looking a key up takes its
  first binding, and \<open>AList.update\<close> overwrites in place or appends a new key.
\<close>

type_synonym row = "(string \<times> string) list"

definition getitem :: "(string \<times> 'v) list \<Rightarrow> string \<Rightarrow> error + 'v" where
  "getitem d k = (case map_of d k of None \<Rightarrow> Inl (KeyError k) | Some v \<Rightarrow> Inr v)"

text \<open>
  Python 2 iterates a dictionary in the order of its hash table, not of insertion.
  The order is a parameter: \<open>h\<close> ranks the keys, and keys of equal rank keep their
  insertion order. Every permutation of the keys is the order of some \<open>h\<close>.
\<close>

definition iteritems :: "(string \<Rightarrow> nat) \<Rightarrow> (string \<times> 'v) list \<Rightarrow> (string \<times> 'v) list" where
  "iteritems h d = sort_key (\<lambda>kv. h (fst kv)) d"

text \<open>The rank that makes \<open>iteritems\<close> return the items in the order \<open>ys\<close>.\<close>

definition rank_in :: "(string \<times> 'v) list \<Rightarrow> string \<Rightarrow> nat" where
  "rank_in ys k = length (takeWhile (\<lambda>kv. fst kv \<noteq> k) ys)"

text \<open>
  \<^verbatim>\<open>random.choice(seq)\<close> is \<^verbatim>\<open>seq[int(random() * len(seq))]\<close>: an index below the
  length, IndexError on an empty sequence. The random draw is the parameter \<open>r\<close>.
\<close>

definition random_choice :: "nat \<Rightarrow> 'a list \<Rightarrow> error + 'a" where
  "random_choice r xs = (if xs = [] then Inl IndexError else Inr (xs ! (r mod length xs)))"

subsection \<open>process\_unit\<close>

type_synonym chunks = "(string \<times> string list) list"
type_synonym fes = "(string \<times> string option) list"

text \<open>Line 17: \<^verbatim>\<open>all(s['_unit_id'] == unit_id for s in sentences)\<close>, left to right.\<close>

fun all_unit_id :: "string \<Rightarrow> row list \<Rightarrow> error + bool" where
  "all_unit_id unit_id [] = Inr True"
| "all_unit_id unit_id (s # ss) =
     and_then (getitem s ''_unit_id'')
       (\<lambda>v. if v = unit_id then all_unit_id unit_id ss else Inr False)"

text \<open>Lines 18 to 20: \<^verbatim>\<open>len(set(s[k] for s in sentences)) == 1\<close>.\<close>

fun column :: "string \<Rightarrow> row list \<Rightarrow> error + string list" where
  "column k [] = Inr []"
| "column k (s # ss) =
     and_then (getitem s k) (\<lambda>v. and_then (column k ss) (\<lambda>vs. Inr (v # vs)))"

definition one_value :: "string \<Rightarrow> row list \<Rightarrow> error + bool" where
  "one_value k sentences = and_then (column k sentences) (\<lambda>vs. Inr (length (remdups vs) = 1))"

text \<open>
  Lines 22 and 23:
  \<^verbatim>\<open>1 + max(int(k.split('_')[1]) for k in sentences[0].keys() if re.match(prefix + r'\d+', k))\<close>.
\<close>

definition key_index :: "string \<Rightarrow> error + int" where
  "key_index k = (case split_on CHR ''_'' k of _ # x # _ \<Rightarrow> py_int x | _ \<Rightarrow> Inl IndexError)"

fun key_indices :: "string \<Rightarrow> string list \<Rightarrow> error + int list" where
  "key_indices prefix [] = Inr []"
| "key_indices prefix (k # ks) =
     (if re_match_index prefix k
      then and_then (key_index k) (\<lambda>i. and_then (key_indices prefix ks) (\<lambda>is. Inr (i # is)))
      else key_indices prefix ks)"

definition index_count :: "string \<Rightarrow> row \<Rightarrow> error + int" where
  "index_count prefix s0 =
     and_then (key_indices prefix (map fst s0)) (\<lambda>is. and_then (py_max is) (\<lambda>m. Inr (1 + m)))"

text \<open>
  \<^verbatim>\<open>xrange(n)\<close>: the argument must fit a C long, or the call raises OverflowError.
  \<^verbatim>\<open>sys.maxint\<close> is that of a 64-bit build; a 32-bit build has \<open>2 ^ 31 - 1\<close>.
\<close>

definition sys_maxint :: int where
  "sys_maxint = 2 ^ 63 - 1"

definition xrange :: "int \<Rightarrow> error + nat list" where
  "xrange n = (if sys_maxint < n then Inl OverflowError else Inr [0..<nat n])"

text \<open>
  Lines 26 to 32: the mapping from a chunk to every frame element assigned to it.
  \<^verbatim>\<open>xrange(chunk_count)\<close> of line 28 is evaluated once for every row.
\<close>

definition append_judgment :: "chunks \<Rightarrow> string \<Rightarrow> string \<Rightarrow> chunks" where
  "append_judgment chunks chunk fe =
     AList.update chunk ((case map_of chunks chunk of None \<Rightarrow> [] | Some js \<Rightarrow> js) @ [fe]) chunks"

fun row_judgments :: "row \<Rightarrow> nat list \<Rightarrow> chunks \<Rightarrow> error + chunks" where
  "row_judgments each [] chunks = Inr chunks"
| "row_judgments each (i # is) chunks =
     and_then (getitem each (''answer_chunk_'' @ fmt02 i)) (\<lambda>fe.
     and_then (getitem each (''chunk_'' @ fmt02 i)) (\<lambda>chunk.
       row_judgments each is
         (if fe \<noteq> [] \<and> chunk \<noteq> [] \<and> fe \<noteq> ''None''
          then append_judgment chunks chunk fe else chunks)))"

fun all_judgments :: "row list \<Rightarrow> int \<Rightarrow> chunks \<Rightarrow> error + chunks" where
  "all_judgments [] chunk_count chunks = Inr chunks"
| "all_judgments (each # rest) chunk_count chunks =
     and_then (xrange chunk_count) (\<lambda>is.
     and_then (row_judgments each is chunks) (all_judgments rest chunk_count))"

text \<open>Lines 37 to 42: the tally of one chunk's judgments and the choice among the most voted.\<close>

fun tally :: "string list \<Rightarrow> (string \<times> nat) list \<Rightarrow> (string \<times> nat) list" where
  "tally [] counts = counts"
| "tally (each # rest) counts =
     tally rest
       (AList.update each ((case map_of counts each of None \<Rightarrow> 0 | Some n \<Rightarrow> n) + 1) counts)"

definition elect :: "(string \<Rightarrow> nat) \<Rightarrow> nat \<Rightarrow> string list \<Rightarrow> error + string" where
  "elect h r judgments =
     (let counts = tally judgments []
      in and_then (py_max (map snd counts)) (\<lambda>most.
           random_choice r (map fst (filter (\<lambda>cj. snd cj = most) (iteritems h counts)))))"

text \<open>
  Lines 35 to 43: the loop over \<^verbatim>\<open>chunks.iteritems()\<close>. The \<open>n\<close>-th call of
  \<^verbatim>\<open>random.choice\<close> draws \<open>rnd n\<close>.
\<close>

fun vote :: "(string \<Rightarrow> nat) \<Rightarrow> (nat \<Rightarrow> nat) \<Rightarrow> nat \<Rightarrow> chunks \<Rightarrow> fes \<Rightarrow> error + fes" where
  "vote h rnd n [] fes = Inr fes"
| "vote h rnd n ((chunk, judgments) # rest) fes =
     and_then (elect h (rnd n) judgments)
       (\<lambda>fe. vote h rnd (Suc n) rest (AList.update fe (Some chunk) fes))"

text \<open>Lines 46 to 49: frame elements of the first row that no chunk was elected for.\<close>

fun fill_missing :: "row \<Rightarrow> nat list \<Rightarrow> fes \<Rightarrow> error + fes" where
  "fill_missing s0 [] fes = Inr fes"
| "fill_missing s0 (i # is) fes =
     and_then (getitem s0 (''fe_'' @ fmt02 i)) (\<lambda>fe.
       fill_missing s0 is
         (if fe \<noteq> [] \<and> map_of fes fe = None then AList.update fe None fes else fes))"

text \<open>Lines 51 to 56: the unit, one JSON object of the training set.\<close>

record ann_unit =
  id_field :: string
  sentence :: string
  frame :: string
  fes :: fes

text \<open>\<^verbatim>\<open>sentences[0]\<close>.\<close>

definition first_row :: "row list \<Rightarrow> error + row" where
  "first_row sentences = (case sentences of [] \<Rightarrow> Inl IndexError | s0 # _ \<Rightarrow> Inr s0)"

text \<open>Lines 17 to 20: the four assertions, in order.\<close>

definition check_unit :: "string \<Rightarrow> row list \<Rightarrow> error + unit" where
  "check_unit unit_id sentences =
     and_then (py_assert (all_unit_id unit_id sentences)) (\<lambda>_.
     and_then (py_assert (one_value ''id'' sentences)) (\<lambda>_.
     and_then (py_assert (one_value ''sentence'' sentences)) (\<lambda>_.
       py_assert (one_value ''frame'' sentences))))"

text \<open>Lines 22 to 58: the body after the assertions.\<close>

definition build_unit :: "(string \<Rightarrow> nat) \<Rightarrow> (nat \<Rightarrow> nat) \<Rightarrow> row list \<Rightarrow> error + ann_unit" where
  "build_unit h rnd sentences =
     and_then (first_row sentences) (\<lambda>s0.
     and_then (index_count ''chunk_'' s0) (\<lambda>chunk_count.
     and_then (index_count ''fe_'' s0) (\<lambda>fe_count.
     and_then (all_judgments sentences chunk_count []) (\<lambda>chunks.
     and_then (vote h rnd 0 (iteritems h chunks) []) (\<lambda>voted.
     and_then (xrange fe_count) (\<lambda>is.
     and_then (fill_missing s0 is voted) (\<lambda>filled.
     and_then (getitem s0 ''id'') (\<lambda>i.
     and_then (getitem s0 ''sentence'') (\<lambda>s.
     and_then (getitem s0 ''frame'') (\<lambda>f.
       Inr \<lparr>id_field = i, sentence = s, frame = f, fes = filled\<rparr>))))))))))"

definition process_unit ::
  "(string \<Rightarrow> nat) \<Rightarrow> (nat \<Rightarrow> nat) \<Rightarrow> string \<Rightarrow> row list \<Rightarrow> error + ann_unit" where
  "process_unit h rnd unit_id sentences =
     and_then (check_unit unit_id sentences) (\<lambda>_. build_unit h rnd sentences)"

text \<open>
  Lines 22 to 32 on their own: the chunk-to-judgments mapping that the vote reads.
\<close>

definition unit_judgments :: "row list \<Rightarrow> error + chunks" where
  "unit_judgments sentences =
     and_then (first_row sentences) (\<lambda>s0.
     and_then (index_count ''chunk_'' s0) (\<lambda>chunk_count.
       all_judgments sentences chunk_count []))"

text \<open>The invariant of the judgments loop: \<open>chunks\<close> is a dictionary of non-empty lists.\<close>

definition chunks_ok :: "chunks \<Rightarrow> bool" where
  "chunks_ok cs \<longleftrightarrow> distinct (map fst cs) \<and> (\<forall>c js. (c, js) \<in> set cs \<longrightarrow> js \<noteq> [])"

subsection \<open>Example inputs\<close>

text \<open>A dictionary order that keeps insertion order, and a random source that always draws 0.\<close>

definition insertion_order :: "string \<Rightarrow> nat" where
  "insertion_order k = 0"

definition first_choice :: "nat \<Rightarrow> nat" where
  "first_choice n = 0"

text \<open>Two judgments of one unit: the workers agree on the first chunk and split on the second.\<close>

definition example_row_a :: row where
  "example_row_a =
     [(''_unit_id'', ''u1''), (''id'', ''a''), (''sentence'', ''s''), (''frame'', ''F''),
      (''chunk_00'', ''Rome''), (''chunk_01'', ''1990''),
      (''answer_chunk_00'', ''Place''), (''answer_chunk_01'', ''Time''),
      (''fe_00'', ''Place''), (''fe_01'', ''Time''), (''fe_02'', ''Agent'')]"

definition example_row_b :: row where
  "example_row_b =
     [(''_unit_id'', ''u1''), (''id'', ''a''), (''sentence'', ''s''), (''frame'', ''F''),
      (''chunk_00'', ''Rome''), (''chunk_01'', ''1990''),
      (''answer_chunk_00'', ''Place''), (''answer_chunk_01'', ''Place''),
      (''fe_00'', ''Place''), (''fe_01'', ''Time''), (''fe_02'', ''Agent'')]"

subsection \<open>The winners of the vote\<close>

text \<open>
  Lines 36 to 42 without the assignment of line 43: the frame element each chunk elects,
  in the order of the loop, and line 43 applied to such a list.
\<close>

fun elections :: "(string \<Rightarrow> nat) \<Rightarrow> (nat \<Rightarrow> nat) \<Rightarrow> nat \<Rightarrow> chunks \<Rightarrow> error + (string \<times> string) list" where
  "elections h rnd n [] = Inr []"
| "elections h rnd n ((chunk, judgments) # rest) =
     and_then (elect h (rnd n) judgments) (\<lambda>fe.
     and_then (elections h rnd (Suc n) rest) (\<lambda>es. Inr ((fe, chunk) # es)))"

definition unit_elections :: "(string \<Rightarrow> nat) \<Rightarrow> (nat \<Rightarrow> nat) \<Rightarrow> row list \<Rightarrow> error + (string \<times> string) list" where
  "unit_elections h rnd sentences =
     and_then (unit_judgments sentences) (\<lambda>chunks. elections h rnd 0 (iteritems h chunks))"

definition record_all :: "(string \<times> string) list \<Rightarrow> fes \<Rightarrow> fes" where
  "record_all es acc = fold (\<lambda>fc. AList.update (fst fc) (Some (snd fc))) es acc"

text \<open>A random source that always draws 1.\<close>

definition second_choice :: "nat \<Rightarrow> nat" where
  "second_choice n = 1"

subsection \<open>Preconditions of process\_unit\<close>

text \<open>
  The four fields the assertions read; rows that all have them; rows two of which differ
  in one of them; rows whose \<^verbatim>\<open>_unit_id\<close> is the \<open>unit_id\<close> argument.
\<close>

definition required_fields :: "string list" where
  "required_fields = [''_unit_id'', ''id'', ''sentence'', ''frame'']"

definition has_fields :: "row list \<Rightarrow> bool" where
  "has_fields sentences =
     list_all (\<lambda>s. list_all (\<lambda>k. map_of s k \<noteq> None) required_fields) sentences"

definition rows_differ :: "row list \<Rightarrow> bool" where
  "rows_differ sentences =
     list_ex (\<lambda>s. list_ex (\<lambda>s'. list_ex (\<lambda>k. map_of s k \<noteq> map_of s' k) required_fields)
       sentences) sentences"

definition unit_id_matches :: "string \<Rightarrow> row list \<Rightarrow> bool" where
  "unit_id_matches unit_id sentences =
     list_all (\<lambda>s. map_of s ''_unit_id'' = Some unit_id) sentences"

text \<open>
  What lines 22 to 49 read: the first row has a \<^verbatim>\<open>chunk_N\<close> and an \<^verbatim>\<open>fe_N\<close> header and
  their indices parse, \<open>chunk_count\<close> and \<open>fe_count\<close> are at most \<^verbatim>\<open>sys.maxint\<close>, every row
  has the \<^verbatim>\<open>answer_chunk_NN\<close> and \<^verbatim>\<open>chunk_NN\<close> columns below \<open>chunk_count\<close>, and the
  first row the \<^verbatim>\<open>fe_NN\<close> columns below \<open>fe_count\<close>.
\<close>

definition columns_ok :: "row list \<Rightarrow> bool" where
  "columns_ok sentences =
     (case sentences of
        [] \<Rightarrow> False
      | s0 # _ \<Rightarrow>
          (case index_count ''chunk_'' s0 of
             Inl _ \<Rightarrow> False
           | Inr chunk_count \<Rightarrow>
               (case index_count ''fe_'' s0 of
                  Inl _ \<Rightarrow> False
                | Inr fe_count \<Rightarrow>
                    chunk_count \<le> sys_maxint \<and> fe_count \<le> sys_maxint \<and>
                    list_all (\<lambda>each. list_all (\<lambda>i.
                        map_of each (''answer_chunk_'' @ fmt02 i) \<noteq> None \<and>
                        map_of each (''chunk_'' @ fmt02 i) \<noteq> None) [0..<nat chunk_count])
                      sentences \<and>
                    list_all (\<lambda>i. map_of s0 (''fe_'' @ fmt02 i) \<noteq> None) [0..<nat fe_count])))"

text \<open>All rows carry the same cell, or all lack it, under the key \<open>k\<close>.\<close>

definition same_on :: "string \<Rightarrow> row list \<Rightarrow> bool" where
  "same_on k ss = (\<forall>s \<in> set ss. \<forall>s' \<in> set ss. map_of s k = map_of s' k)"

text \<open>A row with the four fields and no chunk or frame-element column, and a judgment of
  another sentence.\<close>

definition example_row_bare :: row where
  "example_row_bare =
     [(''_unit_id'', ''u1''), (''id'', ''a''), (''sentence'', ''s''), (''frame'', ''F'')]"

text \<open>A row whose only chunk header has the index \<^verbatim>\<open>sys.maxint\<close>.\<close>

definition example_row_long :: row where
  "example_row_long =
     [(''_unit_id'', ''u1''), (''id'', ''a''), (''sentence'', ''s''), (''frame'', ''F''),
      (''chunk_9223372036854775807'', ''Rome''), (''fe_00'', ''Place'')]"

definition example_row_c :: row where
  "example_row_c =
     [(''_unit_id'', ''u1''), (''id'', ''a''), (''sentence'', ''t''), (''frame'', ''F''),
      (''chunk_00'', ''Rome''), (''chunk_01'', ''1990''),
      (''answer_chunk_00'', ''Place''), (''answer_chunk_01'', ''Time''),
      (''fe_00'', ''Place''), (''fe_01'', ''Time''), (''fe_02'', ''Agent'')]"

subsection \<open>main\<close>

text \<open>
  The input is the list of rows that \<^verbatim>\<open>csv.DictReader\<close> yields, the output the list of
  units written, one \<^verbatim>\<open>json.dumps\<close> line each, together with the exception that ended
  the run, if any. Lines written before an exception stay written.
\<close>

text \<open>Lines 68 to 71: \<^verbatim>\<open>sentences[each['_unit_id']].append(each)\<close>.\<close>

fun group_rows :: "row list \<Rightarrow> (string \<times> row list) list \<Rightarrow> error + (string \<times> row list) list" where
  "group_rows [] sentences = Inr sentences"
| "group_rows (each # rest) sentences =
     and_then (getitem each ''_unit_id'') (\<lambda>k.
       group_rows rest
         (AList.update k ((case map_of sentences k of None \<Rightarrow> [] | Some v \<Rightarrow> v) @ [each]) sentences))"

text \<open>
  Lines 73 to 76: the loop over \<^verbatim>\<open>sentences.iteritems()\<close>. The dictionaries of the
  \<open>n\<close>-th unit processed are iterated in the order \<open>hs n\<close>, and its random draws are the
  tape \<open>rnd n\<close>.
\<close>

fun write_units ::
  "(nat \<Rightarrow> string \<Rightarrow> nat) \<Rightarrow> (nat \<Rightarrow> nat \<Rightarrow> nat) \<Rightarrow> nat \<Rightarrow> (string \<times> row list) list \<Rightarrow>
     ann_unit list \<Rightarrow> ann_unit list \<times> error option" where
  "write_units hs rnd n [] outfile = (outfile, None)"
| "write_units hs rnd n ((k, v) # rest) outfile =
     (case process_unit (hs n) (rnd n) k v of
        Inl e \<Rightarrow> (outfile, Some e)
      | Inr processed \<Rightarrow> write_units hs rnd (Suc n) rest (outfile @ [processed]))"

definition parse_results_main ::
  "(string \<Rightarrow> nat) \<Rightarrow> (nat \<Rightarrow> string \<Rightarrow> nat) \<Rightarrow> (nat \<Rightarrow> nat \<Rightarrow> nat) \<Rightarrow> row list \<Rightarrow>
     ann_unit list \<times> error option" where
  "parse_results_main h hs rnd results =
     (case group_rows results [] of
        Inl e \<Rightarrow> ([], Some e)
      | Inr sentences \<Rightarrow> write_units hs rnd 0 (iteritems h sentences) [])"

text \<open>
  Every row has a \<^verbatim>\<open>_unit_id\<close> cell; the distinct unit identifiers of a file; the rows of
  one identifier.
\<close>

definition has_unit_ids :: "row list \<Rightarrow> bool" where
  "has_unit_ids results = list_all (\<lambda>r. map_of r ''_unit_id'' \<noteq> None) results"

definition unit_ids :: "row list \<Rightarrow> string list" where
  "unit_ids results = remdups (List.map_filter (\<lambda>r. map_of r ''_unit_id'') results)"

definition rows_of :: "string \<Rightarrow> row list \<Rightarrow> row list" where
  "rows_of k results = filter (\<lambda>r. map_of r ''_unit_id'' = Some k) results"

text \<open>Insertion order and a tape of zero draws for every unit, and a judgment of a second
  unit.\<close>

definition insertion_orders :: "nat \<Rightarrow> string \<Rightarrow> nat" where
  "insertion_orders n = insertion_order"

definition first_choices :: "nat \<Rightarrow> nat \<Rightarrow> nat" where
  "first_choices n = first_choice"

definition example_row_d :: row where
  "example_row_d =
     [(''_unit_id'', ''u2''), (''id'', ''b''), (''sentence'', ''x''), (''frame'', ''G''),
      (''chunk_00'', ''Paris''), (''answer_chunk_00'', ''Place''), (''fe_00'', ''Place'')]"

section \<open>strephit/commons/pos\_tag.py\<close>

subsection \<open>Tags and items\<close>

text \<open>
  What \<^verbatim>\<open>make_tags\<close> of treetaggerwrapper returns for one output line: a \<^verbatim>\<open>Tag\<close> of word,
  part of speech and lemma, or a \<^verbatim>\<open>NotTag\<close>, which has no \<^verbatim>\<open>lemma\<close> attribute.
\<close>

datatype tt = Tag string string string | NotTag string

text \<open>
  Lines 65 to 73, \<^verbatim>\<open>_postprocess_tags\<close>. The test of line 69 is
  \<^verbatim>\<open>(skip_unknown and isinstance(tag, NotTag)) or tag.lemma == u'<unknown>'\<close>: on a
  \<^verbatim>\<open>NotTag\<close> with \<open>skip_unknown\<close> false, \<^verbatim>\<open>tag.lemma\<close> raises AttributeError.
\<close>

fun postprocess_tags :: "tt list \<Rightarrow> bool \<Rightarrow> error + tt list" where
  "postprocess_tags [] skip_unknown = Inr []"
| "postprocess_tags (NotTag what # tags) skip_unknown =
     (if skip_unknown then postprocess_tags tags skip_unknown else Inl AttributeError)"
| "postprocess_tags (Tag word pos lem # tags) skip_unknown =
     (if lem = ''<unknown>'' then postprocess_tags tags skip_unknown
      else and_then (postprocess_tags tags skip_unknown) (\<lambda>clean_tags. Inr (Tag word pos lem # clean_tags)))"

text \<open>
  An item of the corpus is a dictionary. Its values are texts, None, or the tag list
  that \<open>tag_many\<close> stores; the docstring asks for a unicode text under the document key.
\<close>

datatype field = Text string | Null | Tagged "tt list"

type_synonym item = "(string \<times> field) list"

text \<open>\<^verbatim>\<open>item.get(key)\<close> as a condition: a missing key, None and an empty value are false.\<close>

fun truthy :: "field option \<Rightarrow> bool" where
  "truthy None = False"
| "truthy (Some Null) = False"
| "truthy (Some (Text s)) = (s \<noteq> [])"
| "truthy (Some (Tagged ts)) = (ts \<noteq> [])"

subsection \<open>TTPosTagger.tag\_many\<close>

text \<open>
  The generator is modelled by its complete run: the calls on the process pool and the
  items yielded, in order, and the exception that ended the run, if any. The pool and
  \<^verbatim>\<open>make_tags\<close> are the parameter \<open>tagger\<close>, from the value under the document key to the
  tags of the finished job; they are taken to return.
\<close>

datatype event = TagTextAsync item | WaitFinished item | Yield item | StopPoll

type_synonym job = "item \<times> tt list"

text \<open>Lines 154 to 158, \<^verbatim>\<open>_finalize_batch\<close>, with \<open>skip_unknown\<close> at its default.\<close>

fun finalize_batch :: "job list \<Rightarrow> string \<Rightarrow> event list \<times> error option" where
  "finalize_batch [] pos_tag_key = ([], None)"
| "finalize_batch ((item, result) # jobs) pos_tag_key =
     (case postprocess_tags result True of
        Inl e \<Rightarrow> ([WaitFinished item], Some e)
      | Inr tags \<Rightarrow>
          (case finalize_batch jobs pos_tag_key of
             (evs, err) \<Rightarrow>
               (WaitFinished item # Yield (AList.update pos_tag_key (Tagged tags) item) # evs, err)))"

text \<open>
  Lines 139 to 150: the loop over \<^verbatim>\<open>enumerate(items)\<close>. The index \<open>i\<close> counts every item,
  also the skipped ones; \<^verbatim>\<open>i % batch_size\<close> raises ZeroDivisionError when \<open>batch_size\<close> is 0,
  after the job was submitted; the jobs left over are finalized after the last item.
\<close>

fun tag_loop ::
  "(field \<Rightarrow> tt list) \<Rightarrow> string \<Rightarrow> string \<Rightarrow> int \<Rightarrow> nat \<Rightarrow> item list \<Rightarrow> job list \<Rightarrow>
     event list \<times> error option" where
  "tag_loop tagger document_key pos_tag_key batch_size i [] jobs =
     finalize_batch jobs pos_tag_key"
| "tag_loop tagger document_key pos_tag_key batch_size i (item # items) jobs =
     (case map_of item document_key of
        None \<Rightarrow> tag_loop tagger document_key pos_tag_key batch_size (Suc i) items jobs
      | Some text \<Rightarrow>
          if \<not> truthy (Some text)
          then tag_loop tagger document_key pos_tag_key batch_size (Suc i) items jobs
          else if batch_size = 0 then ([TagTextAsync item], Some ZeroDivisionError)
          else if int i mod batch_size = 0
          then (case finalize_batch (jobs @ [(item, tagger text)]) pos_tag_key of
                  (evs, Some e) \<Rightarrow> (TagTextAsync item # evs, Some e)
                | (evs, None) \<Rightarrow>
                    (case tag_loop tagger document_key pos_tag_key batch_size (Suc i) items [] of
                       (evs', err) \<Rightarrow> (TagTextAsync item # evs @ evs', err)))
          else (case tag_loop tagger document_key pos_tag_key batch_size (Suc i) items
                       (jobs @ [(item, tagger text)]) of
                  (evs', err) \<Rightarrow> (TagTextAsync item # evs', err)))"

text \<open>Lines 131 to 152: \<^verbatim>\<open>finally: tt_pool.stop_poll()\<close> ends every run.\<close>

definition tag_many ::
  "(field \<Rightarrow> tt list) \<Rightarrow> item list \<Rightarrow> string \<Rightarrow> string \<Rightarrow> int \<Rightarrow> event list \<times> error option" where
  "tag_many tagger items document_key pos_tag_key batch_size =
     (case tag_loop tagger document_key pos_tag_key batch_size 0 items [] of
        (evs, err) \<Rightarrow> (evs @ [StopPoll], err))"

text \<open>The items a run yields, in order.\<close>

fun yielded :: "event list \<Rightarrow> item list" where
  "yielded [] = []"
| "yielded (Yield item # evs) = item # yielded evs"
| "yielded (_ # evs) = yielded evs"

text \<open>
  The tags \<open>_postprocess_tags\<close> keeps when \<open>skip_unknown\<close> is true, an item whose value
  under the document key is neither missing nor empty, and a job's item with its tags
  stored.
\<close>

definition known_tags :: "tt list \<Rightarrow> tt list" where
  "known_tags tags = filter (\<lambda>t. case t of Tag w p l \<Rightarrow> l \<noteq> ''<unknown>'' | NotTag _ \<Rightarrow> False) tags"

definition annotated :: "string \<Rightarrow> job \<Rightarrow> item" where
  "annotated pos_tag_key j = AList.update pos_tag_key (Tagged (known_tags (snd j))) (fst j)"

definition eligible :: "string \<Rightarrow> item \<Rightarrow> bool" where
  "eligible document_key item = truthy (map_of item document_key)"

text \<open>A tagger that returns one known tag, one non-tag and one unknown lemma; a document.\<close>

definition example_tagger :: "field \<Rightarrow> tt list" where
  "example_tagger f =
     (case f of
        Text s \<Rightarrow> [Tag s ''NN'' s, NotTag ''<s>'', Tag ''x'' ''NN'' ''<unknown>'']
      | _ \<Rightarrow> [])"

definition doc :: "string \<Rightarrow> item" where
  "doc s = [(''text'', Text s)]"

subsection \<open>NLTKPosTagger.tag\_many and main\<close>

text \<open>
  Line 189 calls \<^verbatim>\<open>pos_tagger.tag_many(corpus, document_key, pos_tag_key, batch_size)\<close>
  on either tagger. \<^verbatim>\<open>NLTKPosTagger.tag_many(self, documents, tagset=None, **kwargs)\<close>
  binds at most two positional arguments after \<open>self\<close>; a call with more raises
  TypeError. Its body, \<^verbatim>\<open>pos_tag_sents\<close> over \<^verbatim>\<open>word_tokenize\<close> of NLTK, is a parameter.
\<close>

datatype tagger_choice = TT | NLTK

datatype pyarg = ArgItems "item list" | ArgStr string | ArgInt int

datatype line = Document item | Sentence "(string \<times> string) list"

definition nltk_tag_many ::
  "(pyarg \<Rightarrow> pyarg option \<Rightarrow> error + (string \<times> string) list list) \<Rightarrow> pyarg list \<Rightarrow>
     error + (string \<times> string) list list" where
  "nltk_tag_many pos_tag_sents args =
     (case args of
        [documents] \<Rightarrow> pos_tag_sents documents None
      | [documents, tagset] \<Rightarrow> pos_tag_sents documents (Some tagset)
      | _ \<Rightarrow> Inl TypeError)"

text \<open>
  Lines 179 to 197: the corpus is what \<^verbatim>\<open>load_scraped_items\<close> returns, the output the
  lines written, one per tagged document, before serialisation.
\<close>

definition pos_tag_main ::
  "(field \<Rightarrow> tt list) \<Rightarrow> (pyarg \<Rightarrow> pyarg option \<Rightarrow> error + (string \<times> string) list list) \<Rightarrow>
     tagger_choice \<Rightarrow> item list \<Rightarrow> string \<Rightarrow> string \<Rightarrow> int \<Rightarrow> line list \<times> error option" where
  "pos_tag_main tagger pos_tag_sents choice corpus document_key pos_tag_key batch_size =
     (case choice of
        TT \<Rightarrow>
          (case tag_many tagger corpus document_key pos_tag_key batch_size of
             (evs, err) \<Rightarrow> (map Document (yielded evs), err))
      | NLTK \<Rightarrow>
          (case nltk_tag_many pos_tag_sents
                  [ArgItems corpus, ArgStr document_key, ArgStr pos_tag_key, ArgInt batch_size] of
             Inl e \<Rightarrow> ([], Some e)
           | Inr tagged \<Rightarrow> (map Sentence tagged, None)))"

section \<open>strephit/classification/train.py\<close>

text \<open>
  The command is glue around code that is not part of these files: \<^verbatim>\<open>json.loads\<close>, the
  feature extractor and scikit-learn's \<^verbatim>\<open>LinearSVC\<close>. The model records the calls made on
  them, in order. Option values, features and labels are type parameters: the value of
  \<^verbatim>\<open>-c\<close> is only passed on.
\<close>

datatype ('j, 'g, 'k, 'x, 'y) train_event =
    ProcessSentence 'j 'j bool 'g
  | GetFeatures
  | LinearSVC "(string \<times> 'k) list"
  | Fit 'x 'y
  | Dump string

text \<open>
  The library functions, each of which may raise: \<^verbatim>\<open>json.loads\<close> to a dictionary,
  \<^verbatim>\<open>extractor.process_sentence\<close> and \<^verbatim>\<open>extractor.get_features\<close> on the extractor's
  state, and \<^verbatim>\<open>LinearSVC(**kwargs).fit(x, y)\<close>.
\<close>

record ('j, 'g, 'e, 'k, 'x, 'y) library =
  json_loads :: "string \<Rightarrow> error + (string \<times> 'j) list"
  process_sentence :: "'e \<Rightarrow> 'j \<Rightarrow> 'j \<Rightarrow> bool \<Rightarrow> 'g \<Rightarrow> error + 'e"
  get_features :: "'e \<Rightarrow> error + 'x \<times> 'y"
  fit :: "(string \<times> 'k) list \<Rightarrow> 'x \<Rightarrow> 'y \<Rightarrow> error + unit"

text \<open>Lines 44 and 45: \<^verbatim>\<open>json.loads(row)\<close>, then \<^verbatim>\<open>data['sentence']\<close> and \<^verbatim>\<open>data['fes']\<close>.\<close>

definition read_row ::
  "('j, 'g, 'e, 'k, 'x, 'y) library \<Rightarrow> string \<Rightarrow> error + 'j \<times> 'j" where
  "read_row lib row =
     and_then (json_loads lib row) (\<lambda>data.
     and_then (getitem data ''sentence'') (\<lambda>s.
     and_then (getitem data ''fes'') (\<lambda>f. Inr (s, f))))"

text \<open>Lines 43 to 46: the loop over the lines of the training set.\<close>

fun build_training_set ::
  "('j, 'g, 'e, 'k, 'x, 'y) library \<Rightarrow> 'g \<Rightarrow> string list \<Rightarrow> 'e \<Rightarrow>
     ('j, 'g, 'k, 'x, 'y) train_event list \<times> (error + 'e)" where
  "build_training_set lib gazetteer [] extractor = ([], Inr extractor)"
| "build_training_set lib gazetteer (row # rows) extractor =
     (case read_row lib row of
        Inl e \<Rightarrow> ([], Inl e)
      | Inr (s, f) \<Rightarrow>
          (case process_sentence lib extractor s f True gazetteer of
             Inl e \<Rightarrow> ([ProcessSentence s f True gazetteer], Inl e)
           | Inr extractor' \<Rightarrow>
               (case build_training_set lib gazetteer rows extractor' of
                  (evs, r) \<Rightarrow> (ProcessSentence s f True gazetteer # evs, r))))"

text \<open>
  Lines 42 to 59. \<open>gazetteer\<close> and \<open>extractor\<close> are the values of lines 39 and 40;
  \<open>kwargs\<close> holds the remaining options; line 54 moves the value of \<open>c\<close> to the key \<open>C\<close>.
\<close>

definition train_main ::
  "('j, 'g, 'e, 'k, 'x, 'y) library \<Rightarrow> string list \<Rightarrow> 'g \<Rightarrow> (string \<times> 'k) list \<Rightarrow> 'e \<Rightarrow> string \<Rightarrow>
     ('j, 'g, 'k, 'x, 'y) train_event list \<times> error option" where
  "train_main lib training_set gazetteer kwargs extractor outfile =
     (case build_training_set lib gazetteer training_set extractor of
        (evs, Inl e) \<Rightarrow> (evs, Some e)
      | (evs, Inr extractor') \<Rightarrow>
          (case get_features lib extractor' of
             Inl e \<Rightarrow> (evs @ [GetFeatures], Some e)
           | Inr (x, y) \<Rightarrow>
               (case map_of kwargs ''c'' of
                  None \<Rightarrow> (evs @ [GetFeatures], Some (KeyError ''c''))
                | Some c \<Rightarrow>
                    (let kw = AList.update ''C'' c (AList.delete ''c'' kwargs)
                     in case fit lib kw x y of
                          Inl e \<Rightarrow> (evs @ [GetFeatures, LinearSVC kw, Fit x y], Some e)
                        | Inr _ \<Rightarrow>
                            (evs @ [GetFeatures, LinearSVC kw, Fit x y, Dump outfile], None)))))"

text \<open>
  The event for one line: the line parses to a dictionary whose \<open>sentence\<close> and \<open>fes\<close>
  are passed to \<open>process_sentence\<close> with \<open>add_unknown\<close> true and the gazetteer.
\<close>

definition fed ::
  "('j, 'g, 'e, 'k, 'x, 'y) library \<Rightarrow> 'g \<Rightarrow> string \<Rightarrow> ('j, 'g, 'k, 'x, 'y) train_event \<Rightarrow> bool" where
  "fed lib gazetteer row ev =
     (case read_row lib row of
        Inl _ \<Rightarrow> False
      | Inr (s, f) \<Rightarrow> ev = ProcessSentence s f True gazetteer)"

text \<open>
  A library for two lines: the extractor collects the pairs it is fed and returns
  sentences as features and frame elements as labels.
\<close>

definition example_library ::
  "(string, unit, (string \<times> string) list, string, string list, string list) library" where
  "example_library =
     \<lparr>json_loads = (\<lambda>row.
          if row = ''{1}'' then Inr [(''sentence'', ''Rome is big''), (''fes'', ''Place'')]
          else if row = ''{2}'' then Inr [(''sentence'', ''It rained''), (''fes'', ''Time'')]
          else Inl ValueError),
       process_sentence = (\<lambda>e s f add_unknown gazetteer. Inr (e @ [(s, f)])),
       get_features = (\<lambda>e. Inr (map fst e, map snd e)),
       fit = (\<lambda>kw x y. Inr ())\<rparr>"

section \<open>Facts about the Python layer\<close>

lemma and_then_Inr_iff: "and_then m f = Inr y \<longleftrightarrow> (\<exists>v. m = Inr v \<and> f v = Inr y)"
  by (cases m) (simp_all add: and_then_def)

lemma and_then_Inl_iff:
  "and_then m f = Inl e \<longleftrightarrow> m = Inl e \<or> (\<exists>v. m = Inr v \<and> f v = Inl e)"
  by (cases m) (simp_all add: and_then_def)

lemma and_then_simps [simp]: "and_then (Inl e) f = Inl e" "and_then (Inr v) f = f v"
  by (simp_all add: and_then_def)

lemma py_assert_Inr_iff: "py_assert c = Inr x \<longleftrightarrow> c = Inr True"
  by (cases c) (auto simp: py_assert_def)

lemma fold_max_Max: "fold max xs x = Max (set (x # xs))"
  by (simp only: Max.set_eq_fold)

lemma py_max_Inr_iff: "py_max xs = Inr m \<longleftrightarrow> xs \<noteq> [] \<and> m = Max (set xs)"
  by (cases xs) (auto simp: py_max_def fold_max_Max simp del: set_simps)

lemma xrange_Inr_iff: "xrange n = Inr is \<longleftrightarrow> n \<le> sys_maxint \<and> is = [0..<nat n]"
  by (auto simp: xrange_def)

lemma set_update_cases:
  "kv \<in> set (AList.update k v al) \<Longrightarrow> kv = (k, v) \<or> kv \<in> set al"
  by (induction al) (auto split: if_splits)

lemma set_iteritems [simp]: "set (iteritems h d) = set d"
  by (simp add: iteritems_def)

lemma rank_in_nth:
  assumes "distinct (map fst ys)" "i < length ys"
  shows "rank_in ys (fst (ys ! i)) = i"
proof -
  have "takeWhile (\<lambda>kv. fst kv \<noteq> fst (ys ! i)) ys = take i ys"
  proof (rule takeWhile_eq_take_P_nth)
    fix j assume "j < i" "j < length ys"
    with assms show "fst (ys ! j) \<noteq> fst (ys ! i)"
      by (metis distinct_conv_nth length_map nat_neq_iff nth_map)
  next
    show "i < length ys \<Longrightarrow> \<not> fst (ys ! i) \<noteq> fst (ys ! i)" by simp
  qed
  with assms(2) show ?thesis by (simp add: rank_in_def)
qed

lemma filter_eq_distinct:
  "distinct xs \<Longrightarrow> filter (\<lambda>x. x = k) xs = (if k \<in> set xs then [k] else [])"
  by (induction xs) auto

text \<open>
  The two parameters cover what Python may do: any order of a dictionary's items is the
  order of some rank, and any element of a sequence is the choice of some draw.
\<close>

lemma iteritems_any_order:
  assumes "distinct (map fst d)" and "distinct (map fst ys)" and "set ys = set d"
  shows "iteritems (rank_in ys) d = ys"
  unfolding iteritems_def
proof (rule properties_for_sort_key)
  from assms have "distinct d" "distinct ys" by (auto simp: distinct_map)
  with assms(3) show "mset ys = mset d" by (simp add: set_eq_iff_mset_eq_distinct)
next
  have "map (\<lambda>kv. rank_in ys (fst kv)) ys = [0..<length ys]"
    by (rule nth_equalityI) (simp_all add: rank_in_nth [OF assms(2)])
  then show "sorted (map (\<lambda>kv. rank_in ys (fst kv)) ys)" by simp
next
  fix kv assume kv: "kv \<in> set ys"
  have inj: "rank_in ys (fst a) = rank_in ys (fst b) \<Longrightarrow> a = b" if "a \<in> set ys" "b \<in> set ys" for a b
  proof -
    assume e: "rank_in ys (fst a) = rank_in ys (fst b)"
    from that obtain i j where "i < length ys" "ys ! i = a" "j < length ys" "ys ! j = b"
      by (auto simp: in_set_conv_nth)
    with e rank_in_nth [OF assms(2)] show "a = b" by metis
  qed
  from assms have dd: "distinct d" "distinct ys" by (auto simp: distinct_map)
  have P: "(rank_in ys (fst kv) = rank_in ys (fst x)) = (x = kv)" if "x \<in> set ys" for x
    using inj [OF kv that] by metis
  have "filter (\<lambda>x. rank_in ys (fst kv) = rank_in ys (fst x)) ys = filter (\<lambda>x. x = kv) ys"
    by (rule filter_cong) (simp_all add: P)
  moreover have "filter (\<lambda>x. rank_in ys (fst kv) = rank_in ys (fst x)) d = filter (\<lambda>x. x = kv) d"
    by (rule filter_cong) (simp_all add: P assms(3) [symmetric])
  moreover have "filter (\<lambda>x. x = kv) ys = [kv]" "filter (\<lambda>x. x = kv) d = [kv]"
    using dd kv assms(3) by (simp_all add: filter_eq_distinct)
  ultimately show "filter (\<lambda>x. rank_in ys (fst kv) = rank_in ys (fst x)) ys =
                   filter (\<lambda>x. rank_in ys (fst kv) = rank_in ys (fst x)) d" by simp
qed

lemma random_choice_any: "x \<in> set xs \<Longrightarrow> \<exists>r. random_choice r xs = Inr x"
proof -
  assume "x \<in> set xs"
  then obtain i where "i < length xs" "xs ! i = x" by (auto simp: in_set_conv_nth)
  then have "random_choice i xs = Inr x" by (auto simp: random_choice_def)
  then show ?thesis ..
qed


section \<open>The majority vote\<close>

lemma chunks_ok_append: "chunks_ok cs \<Longrightarrow> chunks_ok (append_judgment cs c fe)"
  by (auto simp: chunks_ok_def append_judgment_def distinct_update dest!: set_update_cases)

lemma chunks_ok_row:
  "row_judgments each is cs = Inr cs' \<Longrightarrow> chunks_ok cs \<Longrightarrow> chunks_ok cs'"
  by (induction "is" arbitrary: cs) (auto simp: and_then_Inr_iff chunks_ok_append split: if_splits)

lemma chunks_ok_all:
  "all_judgments ss n cs = Inr cs' \<Longrightarrow> chunks_ok cs \<Longrightarrow> chunks_ok cs'"
  by (induction ss arbitrary: cs) (auto simp: and_then_Inr_iff dest: chunks_ok_row)

lemma tally_distinct: "distinct (map fst cnt) \<Longrightarrow> distinct (map fst (tally js cnt))"
  by (induction js arbitrary: cnt) (auto simp: distinct_update)

lemma tally_map_of:
  "map_of (tally js cnt) fe =
     (if fe \<in> set js then Some (count_list js fe + (case map_of cnt fe of None \<Rightarrow> 0 | Some n \<Rightarrow> n))
      else map_of cnt fe)"
  by (induction js arbitrary: cnt) (auto simp: update_conv' split: option.splits)

lemma tally_set: "set (tally js []) = (\<lambda>fe. (fe, count_list js fe)) ` set js"
proof -
  have d: "distinct (map fst (tally js []))" by (simp add: tally_distinct)
  have "(fe, n) \<in> set (tally js []) \<longleftrightarrow> fe \<in> set js \<and> n = count_list js fe" for fe n
    using map_of_eq_Some_iff [OF d, of fe n] by (auto simp: tally_map_of split: if_splits)
  then show ?thesis by auto
qed

text \<open>A chunk with a judgment always elects a frame element: neither \<^verbatim>\<open>max\<close> nor
  \<^verbatim>\<open>random.choice\<close> sees an empty sequence.\<close>

lemma elect_total:
  assumes "js \<noteq> []"
  shows "\<exists>fe. elect h r js = Inr fe"
proof -
  let ?counts = "tally js []"
  from assms have ne: "map snd ?counts \<noteq> []"
    using tally_set [of js] by (cases "tally js []") auto
  define most where "most = Max (set (map snd ?counts))"
  have m: "py_max (map snd ?counts) = Inr most"
    using ne by (simp add: py_max_Inr_iff most_def)
  have "most \<in> set (map snd ?counts)"
    unfolding most_def using ne by (intro Max_in) auto
  then obtain c where "(c, most) \<in> set ?counts" by auto
  then have "(c, most) \<in> set (filter (\<lambda>cj. snd cj = most) (iteritems h ?counts))" by simp
  then have "map fst (filter (\<lambda>cj. snd cj = most) (iteritems h ?counts)) \<noteq> []"
    by (metis empty_iff list.map_disc_iff list.set(1))
  then show ?thesis
    by (simp add: elect_def Let_def m random_choice_def)
qed

lemma elect_majority:
  assumes "elect h r js = Inr fe"
  shows "fe \<in> set js \<and> count_list js fe = Max (count_list js ` set js)"
proof -
  let ?counts = "tally js []"
  from assms obtain most where m: "py_max (map snd ?counts) = Inr most"
    and c: "random_choice r (map fst (filter (\<lambda>cj. snd cj = most) (iteritems h ?counts))) = Inr fe"
    by (auto simp: elect_def Let_def and_then_Inr_iff)
  let ?cands = "map fst (filter (\<lambda>cj. snd cj = most) (iteritems h ?counts))"
  from c have ne: "?cands \<noteq> []" and fe: "fe = ?cands ! (r mod length ?cands)"
    by (auto simp: random_choice_def split: if_splits)
  from ne have "r mod length ?cands < length ?cands" by simp
  then have "fe \<in> set ?cands" unfolding fe by (rule nth_mem)
  then have "(fe, most) \<in> set ?counts" by auto
  then have 1: "fe \<in> set js" and 2: "most = count_list js fe" by (auto simp: tally_set)
  from m have "most = Max (set (map snd ?counts))" by (simp add: py_max_Inr_iff)
  also have "set (map snd ?counts) = count_list js ` set js"
    by (simp add: tally_set image_image)
  finally show ?thesis using 1 2 by simp
qed

lemma vote_sources:
  "vote h rnd n items acc = Inr out \<Longrightarrow> (fe, Some c) \<in> set out \<Longrightarrow>
     (fe, Some c) \<in> set acc \<or> (\<exists>js r. (c, js) \<in> set items \<and> elect h r js = Inr fe)"
proof (induction items arbitrary: n acc)
  case Nil
  then show ?case by simp
next
  case (Cons it items)
  obtain c' js' where it: "it = (c', js')" by (cases it)
  from Cons.prems(1) obtain fe' where e: "elect h (rnd n) js' = Inr fe'"
    and v: "vote h rnd (Suc n) items (AList.update fe' (Some c') acc) = Inr out"
    by (auto simp: it and_then_Inr_iff)
  from Cons.IH [OF v Cons.prems(2)] show ?case
  proof
    assume "(fe, Some c) \<in> set (AList.update fe' (Some c') acc)"
    then have "(fe, Some c) = (fe', Some c') \<or> (fe, Some c) \<in> set acc"
      by (rule set_update_cases)
    then show ?thesis using e it by auto
  next
    assume "\<exists>js r. (c, js) \<in> set items \<and> elect h r js = Inr fe"
    then show ?thesis by auto
  qed
qed

lemma fill_missing_sources:
  "fill_missing s0 is acc = Inr out \<Longrightarrow> (fe, Some c) \<in> set out \<Longrightarrow> (fe, Some c) \<in> set acc"
  by (induction "is" arbitrary: acc)
     (auto simp: and_then_Inr_iff split: if_splits dest!: set_update_cases)

text \<open>
  C1. Whenever \<open>process_unit\<close> returns a unit, every pair of a frame element \<open>fe\<close> and a
  chunk that its \<open>fes\<close> mapping records was decided by majority voting: the chunk is a
  key of the judgments mapping, so it received at least one judgment, \<open>fe\<close> is among the
  frame elements proposed for it, and the number of votes for \<open>fe\<close> among the chunk's
  judgments equals the maximum vote count over all frame elements proposed for that
  chunk. This holds for every dictionary order \<open>h\<close> and every random source \<open>rnd\<close>.
\<close>

theorem process_unit_majority:
  assumes "process_unit h rnd unit_id sentences = Inr u"
  shows "\<exists>chunks. unit_judgments sentences = Inr chunks \<and>
           (\<forall>fe chunk. (fe, Some chunk) \<in> set (fes u) \<longrightarrow>
              (\<exists>js. map_of chunks chunk = Some js \<and> js \<noteq> [] \<and> fe \<in> set js \<and>
                 count_list js fe = Max (count_list js ` set js)))"
proof -
  from assms obtain s0 cc idxs chunks voted filled where
    s0: "first_row sentences = Inr s0" and cc: "index_count ''chunk_'' s0 = Inr cc"
    and js: "all_judgments sentences cc [] = Inr chunks"
    and v: "vote h rnd 0 (iteritems h chunks) [] = Inr voted"
    and f: "fill_missing s0 idxs voted = Inr filled"
    and u: "fes u = filled"
    by (auto simp: process_unit_def build_unit_def and_then_Inr_iff)
  have ok: "chunks_ok chunks"
    using chunks_ok_all [OF js] by (simp add: chunks_ok_def)
  have uj: "unit_judgments sentences = Inr chunks"
    by (simp add: unit_judgments_def s0 cc js)
  have "\<exists>js. map_of chunks chunk = Some js \<and> js \<noteq> [] \<and> fe \<in> set js \<and>
          count_list js fe = Max (count_list js ` set js)"
    if "(fe, Some chunk) \<in> set (fes u)" for fe chunk
  proof -
    from that u have "(fe, Some chunk) \<in> set voted"
      using fill_missing_sources [OF f] by simp
    from vote_sources [OF v this] obtain js r where
      m: "(chunk, js) \<in> set chunks" and e: "elect h r js = Inr fe" by auto
    from ok m have "map_of chunks chunk = Some js" "js \<noteq> []"
      by (auto simp: chunks_ok_def)
    with elect_majority [OF e] show ?thesis by simp
  qed
  with uj show ?thesis by blast
qed

text \<open>
  The theorem at the example unit: both workers assign Place to Rome; 1990 gets one
  vote for Time and one for Place, and the draw picks Time.
\<close>

theorem process_unit_majority_witness:
  "process_unit insertion_order first_choice ''u1'' [example_row_a, example_row_b] =
     Inr \<lparr>id_field = ''a'', sentence = ''s'', frame = ''F'',
          fes = [(''Place'', Some ''Rome''), (''Time'', Some ''1990''), (''Agent'', None)]\<rparr> \<and>
   (\<exists>chunks. unit_judgments [example_row_a, example_row_b] = Inr chunks \<and>
      (\<forall>fe chunk.
         (fe, Some chunk) \<in> set [(''Place'', Some ''Rome''), (''Time'', Some ''1990''), (''Agent'', None)] \<longrightarrow>
         (\<exists>js. map_of chunks chunk = Some js \<and> js \<noteq> [] \<and> fe \<in> set js \<and>
            count_list js fe = Max (count_list js ` set js))))"
proof -
  have run: "process_unit insertion_order first_choice ''u1'' [example_row_a, example_row_b] =
     Inr \<lparr>id_field = ''a'', sentence = ''s'', frame = ''F'',
          fes = [(''Place'', Some ''Rome''), (''Time'', Some ''1990''), (''Agent'', None)]\<rparr>"
    by code_simp
  from process_unit_majority [OF run] run show ?thesis by simp
qed

section \<open>The frame-element mapping\<close>

lemma vote_elections:
  "vote h rnd n items acc = Inr out \<Longrightarrow>
     \<exists>es. elections h rnd n items = Inr es \<and> out = record_all es acc"
proof (induction items arbitrary: n acc)
  case Nil
  then show ?case by (simp add: record_all_def)
next
  case (Cons it items)
  obtain c js where it: "it = (c, js)" by (cases it)
  from Cons.prems obtain fe where e: "elect h (rnd n) js = Inr fe"
    and v: "vote h rnd (Suc n) items (AList.update fe (Some c) acc) = Inr out"
    by (auto simp: it and_then_Inr_iff)
  from Cons.IH [OF v] obtain es where "elections h rnd (Suc n) items = Inr es"
    and "out = record_all es (AList.update fe (Some c) acc)" by blast
  then show ?case by (simp add: it e record_all_def)
qed

lemma elections_chunks: "elections h rnd n items = Inr es \<Longrightarrow> map snd es = map fst items"
proof (induction items arbitrary: n es)
  case Nil
  then show ?case by simp
next
  case (Cons it items)
  obtain c js where it: "it = (c, js)" by (cases it)
  from Cons.prems obtain fe es' where "elections h rnd (Suc n) items = Inr es'"
    and "es = (fe, c) # es'"
    by (auto simp: it and_then_Inr_iff)
  with Cons.IH show ?case by (simp add: it)
qed

lemma distinct_fst_insort_key:
  "distinct (map fst (insort_key f x xs)) = distinct (map fst (x # xs))"
  by (induction xs) (auto simp: set_insort_key)

lemma distinct_fst_sort_key: "distinct (map fst (sort_key f xs)) = distinct (map fst xs)"
  by (induction xs) (auto simp: distinct_fst_insort_key)

lemma distinct_fst_iteritems [simp]: "distinct (map fst (iteritems h d)) = distinct (map fst d)"
  by (simp add: iteritems_def distinct_fst_sort_key)

lemma record_all_distinct: "distinct (map fst acc) \<Longrightarrow> distinct (map fst (record_all es acc))"
  unfolding record_all_def by (induction es arbitrary: acc) (auto simp: distinct_update)

lemma record_all_keys: "fst ` set (record_all es acc) = fst ` set es \<union> fst ` set acc"
  unfolding record_all_def by (induction es arbitrary: acc) (auto simp: dom_update)

lemma record_all_sources:
  "(fe, v) \<in> set (record_all es acc) \<Longrightarrow>
     (fe, v) \<in> set acc \<or> (\<exists>c. v = Some c \<and> (fe, c) \<in> set es)"
  unfolding record_all_def
proof (induction es arbitrary: acc)
  case Nil
  then show ?case by simp
next
  case (Cons e es)
  from Cons.IH [of "AList.update (fst e) (Some (snd e)) acc"] Cons.prems
  have "(fe, v) \<in> set (AList.update (fst e) (Some (snd e)) acc) \<or> (\<exists>c. v = Some c \<and> (fe, c) \<in> set es)"
    by simp
  then show ?case by (auto dest!: set_update_cases)
qed

lemma fill_missing_distinct:
  "fill_missing s0 is acc = Inr out \<Longrightarrow> distinct (map fst acc) \<Longrightarrow> distinct (map fst out)"
  by (induction "is" arbitrary: acc) (auto simp: and_then_Inr_iff distinct_update split: if_splits)

lemma fill_missing_keeps:
  "fill_missing s0 is acc = Inr out \<Longrightarrow> map_of acc fe = Some v \<Longrightarrow> map_of out fe = Some v"
proof (induction "is" arbitrary: acc)
  case Nil
  then show ?case by simp
next
  case (Cons i "is")
  from Cons.prems(1) obtain w where
    f: "fill_missing s0 is (if w \<noteq> [] \<and> map_of acc w = None then AList.update w None acc else acc) = Inr out"
    by (auto simp: and_then_Inr_iff)
  from Cons.prems(2)
  have "map_of (if w \<noteq> [] \<and> map_of acc w = None then AList.update w None acc else acc) fe = Some v"
    by (auto simp: update_conv')
  from Cons.IH [OF f this] show ?case .
qed

lemma fill_missing_adds_None:
  "fill_missing s0 is acc = Inr out \<Longrightarrow> map_of acc fe = None \<Longrightarrow>
     map_of out fe = None \<or> map_of out fe = Some None"
proof (induction "is" arbitrary: acc)
  case Nil
  then show ?case by simp
next
  case (Cons i "is")
  from Cons.prems(1) obtain v where
    f: "fill_missing s0 is (if v \<noteq> [] \<and> map_of acc v = None then AList.update v None acc else acc) = Inr out"
    by (auto simp: and_then_Inr_iff)
  show ?case
  proof (cases "v \<noteq> [] \<and> map_of acc v = None \<and> v = fe")
    case True
    with f have "fill_missing s0 is (AList.update fe None acc) = Inr out" by auto
    from fill_missing_keeps [OF this, of fe None] show ?thesis by (simp add: update_conv')
  next
    case False
    with Cons.prems(2) have "map_of (if v \<noteq> [] \<and> map_of acc v = None then AList.update v None acc else acc) fe = None"
      by (auto simp: update_conv')
    from Cons.IH [OF f this] show ?thesis .
  qed
qed

section \<open>Keys made of a prefix and a two-digit index\<close>

lemma lt10_cases: "d < 10 \<Longrightarrow> d \<in> {0, 1, 2, 3, 4, 5, 6, 7, 8, Suc 8}" for d :: nat
  by auto

lemma is_digit_digit_char: "d < 10 \<Longrightarrow> is_digit (digit_char d)"
  by (drule lt10_cases) (auto simp: is_digit_def digit_char_def)

lemma digit_val_digit_char: "d < 10 \<Longrightarrow> digit_val (digit_char d) = d"
  by (drule lt10_cases) (auto simp: digit_val_def digit_char_def)

lemma is_digit_not_space: "is_digit c \<Longrightarrow> \<not> is_space c"
  by (auto simp: is_digit_def is_space_def)

lemma is_digit_not_sign: "is_digit c \<Longrightarrow> c \<noteq> CHR ''-'' \<and> c \<noteq> CHR ''+'' \<and> c \<noteq> CHR ''_''"
  by (auto simp: is_digit_def)

lemma dec_nonempty: "dec n \<noteq> []"
  by (subst dec.simps) simp

lemma dec_digits: "list_all is_digit (dec n)"
proof (induction n rule: dec.induct)
  case (1 n)
  then show ?case by (subst dec.simps) (simp add: is_digit_digit_char)
qed

lemma digits_value_snoc: "digits_value (ds @ [c]) = 10 * digits_value ds + digit_val c"
  by (simp add: digits_value_def)

lemma digits_value_dec: "digits_value (dec n) = n"
proof (induction n rule: dec.induct)
  case (1 n)
  show ?case
  proof (cases "n < 10")
    case True
    then show ?thesis by (subst dec.simps) (simp add: digits_value_def digit_val_digit_char)
  next
    case False
    with 1 show ?thesis
      by (subst dec.simps) (simp add: digits_value_snoc digit_val_digit_char)
  qed
qed

lemma digits_value_zero: "digits_value (CHR ''0'' # ds) = digits_value ds"
  by (simp add: digits_value_def digit_val_def)

lemma fmt02_nonempty: "fmt02 i \<noteq> []"
  by (simp add: fmt02_def dec_nonempty)

lemma fmt02_digits: "list_all is_digit (fmt02 i)"
  by (simp add: fmt02_def dec_digits) (simp add: is_digit_def)

lemma digits_value_fmt02: "digits_value (fmt02 i) = i"
  by (simp add: fmt02_def digits_value_zero digits_value_dec)

lemma strip_digits:
  assumes "ds \<noteq> []" "list_all is_digit ds"
  shows "strip ds = ds"
proof -
  from assms have a: "dropWhile is_space ds = ds"
    by (cases ds) (auto simp: is_digit_not_space)
  from assms have b: "dropWhile is_space (rev ds) = rev ds"
    by (cases ds rule: rev_cases) (auto simp: is_digit_not_space)
  show ?thesis by (simp add: strip_def a b)
qed

lemma py_int_digits:
  assumes "ds \<noteq> []" "list_all is_digit ds"
  shows "py_int ds = Inr (int (digits_value ds))"
proof -
  from assms obtain c r where ds: "ds = c # r" and c: "is_digit c" by (cases ds) auto
  from c have n: "c \<noteq> CHR ''-''" "c \<noteq> CHR ''+''" by (simp_all add: is_digit_not_sign)
  have s: "strip ds = ds" by (rule strip_digits [OF assms])
  show ?thesis
    unfolding py_int_def s Let_def using assms n by (simp add: ds)
qed

lemma split_on_no_sep: "sep \<notin> set s \<Longrightarrow> split_on sep s = [s]"
  by (induction s) (auto simp: Let_def)

lemma split_on_prefix: "sep \<notin> set p \<Longrightarrow> split_on sep (p @ sep # s) = p # split_on sep s"
  by (induction p) (auto simp: Let_def)

lemma fmt02_no_underscore: "CHR ''_'' \<notin> set (fmt02 i)"
  using fmt02_digits [of i] by (auto simp: list_all_iff dest: is_digit_not_sign)

lemma key_index_fe: "key_index (''fe_'' @ fmt02 i) = Inr (int i)"
proof -
  have "split_on CHR ''_'' (''fe'' @ CHR ''_'' # fmt02 i) = [''fe'', fmt02 i]"
    by (subst split_on_prefix) (simp_all add: split_on_no_sep fmt02_no_underscore)
  then show ?thesis
    by (simp add: key_index_def py_int_digits fmt02_nonempty fmt02_digits digits_value_fmt02)
qed

lemma re_match_fe: "re_match_index ''fe_'' (''fe_'' @ fmt02 i)"
  using fmt02_nonempty [of i] fmt02_digits [of i]
  by (cases "fmt02 i") (auto simp: re_match_index_def)

lemma key_indices_member:
  "key_indices prefix ks = Inr is \<Longrightarrow> k \<in> set ks \<Longrightarrow> re_match_index prefix k \<Longrightarrow>
     \<exists>j \<in> set is. key_index k = Inr j"
  by (induction ks arbitrary: "is") (auto simp: and_then_Inr_iff split: if_splits)

lemma index_count_covers:
  assumes "index_count prefix s0 = Inr n" and "map_of s0 k = Some v"
    and "re_match_index prefix k" and "key_index k = Inr (int i)"
  shows "i \<in> set [0..<nat n]"
proof -
  from assms(1) obtain "is" where ks: "key_indices prefix (map fst s0) = Inr is"
    and "is \<noteq> []" and n: "n = 1 + Max (set is)"
    by (auto simp: index_count_def and_then_Inr_iff py_max_Inr_iff)
  from assms(2) have "k \<in> set (map fst s0)"
    by (metis map_of_SomeD set_zip_leftD zip_map_fst_snd)
  from key_indices_member [OF ks this assms(3)] assms(4) have "int i \<in> set is" by auto
  then have "int i \<le> Max (set is)" by simp
  with n show ?thesis by simp
qed

lemma fill_missing_covers:
  "fill_missing s0 is acc = Inr out \<Longrightarrow> i \<in> set is \<Longrightarrow>
     map_of s0 (''fe_'' @ fmt02 i) = Some v \<Longrightarrow> v \<noteq> [] \<Longrightarrow> map_of out v \<noteq> None"
proof (induction "is" arbitrary: acc)
  case Nil
  then show ?case by simp
next
  case (Cons j "is")
  from Cons.prems(1) obtain w where g: "getitem s0 (''fe_'' @ fmt02 j) = Inr w"
    and f: "fill_missing s0 is (if w \<noteq> [] \<and> map_of acc w = None then AList.update w None acc else acc) = Inr out"
    by (auto simp: and_then_Inr_iff)
  show ?case
  proof (cases "i = j")
    case True
    with g Cons.prems(3) have "w = v" by (simp add: getitem_def)
    with Cons.prems(4) obtain x where
      "map_of (if w \<noteq> [] \<and> map_of acc w = None then AList.update w None acc else acc) v = Some x"
      by (cases "map_of acc v") (auto simp: update_conv')
    from fill_missing_keeps [OF f this] show ?thesis by simp
  next
    case False
    with Cons.prems(2) have "i \<in> set is" by simp
    from Cons.IH [OF f this Cons.prems(3,4)] show ?thesis .
  qed
qed

section \<open>What the returned mapping holds\<close>

lemma record_all_elected:
  assumes "fe \<in> fst ` set es"
  shows "\<exists>c. (fe, c) \<in> set es \<and> map_of (record_all es []) fe = Some (Some c)"
proof -
  from assms have "fe \<in> fst ` set (record_all es [])" by (simp add: record_all_keys)
  then obtain v where v: "map_of (record_all es []) fe = Some v"
    by (cases "map_of (record_all es []) fe") (auto simp: map_of_eq_None_iff)
  then have "(fe, v) \<in> set (record_all es [])" by (rule map_of_SomeD)
  from record_all_sources [OF this] v show ?thesis by auto
qed

text \<open>
  C7. In the unit that \<open>process_unit\<close> returns, \<open>fes\<close> is a dictionary: a frame element
  is a key at most once, so it is bound to at most one chunk. Every non-empty frame
  element in a column \<^verbatim>\<open>fe_NN\<close> of the first row is a key, and it is bound to None when
  no chunk elected it. When two distinct chunks elect the same frame element, the frame
  element is bound to one chunk that elected it, and each of the two that is not that
  chunk occurs nowhere in \<open>fes\<close>: it is dropped without an error.
\<close>

theorem process_unit_fes:
  assumes "process_unit h rnd unit_id sentences = Inr u"
  shows "\<exists>s0 wins. first_row sentences = Inr s0 \<and> unit_elections h rnd sentences = Inr wins \<and>
     distinct (map fst (fes u)) \<and>
     (\<forall>i v. map_of s0 (''fe_'' @ fmt02 i) = Some v \<and> v \<noteq> [] \<longrightarrow>
        map_of (fes u) v \<noteq> None \<and> (v \<notin> fst ` set wins \<longrightarrow> map_of (fes u) v = Some None)) \<and>
     (\<forall>fe c1 c2. (fe, c1) \<in> set wins \<and> (fe, c2) \<in> set wins \<and> c1 \<noteq> c2 \<longrightarrow>
        (\<exists>c. (fe, c) \<in> set wins \<and> map_of (fes u) fe = Some (Some c) \<and>
           (\<forall>fe'. (c1 \<noteq> c \<longrightarrow> (fe', Some c1) \<notin> set (fes u)) \<and>
                  (c2 \<noteq> c \<longrightarrow> (fe', Some c2) \<notin> set (fes u)))))"
proof -
  from assms obtain s0 cc fc chunks voted where
    s0: "first_row sentences = Inr s0" and cc: "index_count ''chunk_'' s0 = Inr cc"
    and fc: "index_count ''fe_'' s0 = Inr fc"
    and js: "all_judgments sentences cc [] = Inr chunks"
    and v: "vote h rnd 0 (iteritems h chunks) [] = Inr voted"
    and f: "fill_missing s0 [0..<nat fc] voted = Inr (fes u)"
    by (auto simp: process_unit_def build_unit_def and_then_Inr_iff xrange_Inr_iff)
  from vote_elections [OF v] obtain wins where
    w: "elections h rnd 0 (iteritems h chunks) = Inr wins" and voted: "voted = record_all wins []"
    by blast
  have ue: "unit_elections h rnd sentences = Inr wins"
    by (simp add: unit_elections_def unit_judgments_def s0 cc js w)
  have "chunks_ok chunks" using chunks_ok_all [OF js] by (simp add: chunks_ok_def)
  then have dw: "distinct (map snd wins)"
    using elections_chunks [OF w] by (simp add: chunks_ok_def)
  have dv: "distinct (map fst voted)" by (simp add: voted record_all_distinct)
  have d: "distinct (map fst (fes u))" by (rule fill_missing_distinct [OF f dv])
  have elected: "\<exists>c. (fe, c) \<in> set wins \<and> map_of (fes u) fe = Some (Some c)"
    if "fe \<in> fst ` set wins" for fe
  proof -
    from record_all_elected [OF that] obtain c where
      "(fe, c) \<in> set wins" "map_of voted fe = Some (Some c)" by (auto simp: voted)
    with fill_missing_keeps [OF f] show ?thesis by blast
  qed
  have recorded: "(fe', c) \<in> set wins" if "(fe', Some c) \<in> set (fes u)" for fe' c
  proof -
    from that have "(fe', Some c) \<in> set voted" by (rule fill_missing_sources [OF f])
    from record_all_sources [OF this [unfolded voted]] show ?thesis by simp
  qed
  have b: "map_of (fes u) x \<noteq> None \<and> (x \<notin> fst ` set wins \<longrightarrow> map_of (fes u) x = Some None)"
    if "map_of s0 (''fe_'' @ fmt02 i) = Some x \<and> x \<noteq> []" for i x
  proof -
    from that have m: "map_of s0 (''fe_'' @ fmt02 i) = Some x" and x: "x \<noteq> []" by simp_all
    have "i \<in> set [0..<nat fc]"
      by (rule index_count_covers [OF fc m re_match_fe key_index_fe])
    from fill_missing_covers [OF f this m x] have 1: "map_of (fes u) x \<noteq> None" .
    have "map_of (fes u) x = Some None" if "x \<notin> fst ` set wins"
    proof -
      from that have "map_of voted x = None"
        by (simp add: voted map_of_eq_None_iff record_all_keys)
      from fill_missing_adds_None [OF f this] 1 show ?thesis by simp
    qed
    with 1 show ?thesis by simp
  qed
  have c: "\<exists>c. (fe, c) \<in> set wins \<and> map_of (fes u) fe = Some (Some c) \<and>
           (\<forall>fe'. (c1 \<noteq> c \<longrightarrow> (fe', Some c1) \<notin> set (fes u)) \<and>
                  (c2 \<noteq> c \<longrightarrow> (fe', Some c2) \<notin> set (fes u)))"
    if "(fe, c1) \<in> set wins \<and> (fe, c2) \<in> set wins \<and> c1 \<noteq> c2" for fe c1 c2
  proof -
    from that have w1: "(fe, c1) \<in> set wins" and w2: "(fe, c2) \<in> set wins" by simp_all
    then have "fe \<in> fst ` set wins" by force
    from elected [OF this] obtain c where
      wc: "(fe, c) \<in> set wins" and mc: "map_of (fes u) fe = Some (Some c)" by blast
    have dropped: "(fe', Some x) \<notin> set (fes u)" if "(fe, x) \<in> set wins" "x \<noteq> c" for fe' x
    proof
      assume r: "(fe', Some x) \<in> set (fes u)"
      then have "(fe', x) \<in> set wins" by (rule recorded)
      with that(1) dw have "fe' = fe"
        by (metis eq_key_imp_eq_value distinct_map inj_on_def prod.collapse fst_conv snd_conv map_of_SomeD)
      with r d have "map_of (fes u) fe = Some (Some x)" by simp
      with mc that(2) show False by simp
    qed
    from wc mc dropped [OF w1] dropped [OF w2] show ?thesis by blast
  qed
  from s0 ue d b c show ?thesis by blast
qed

text \<open>
  The theorem at the example unit when the draw makes both chunks elect Place: Rome is
  dropped, and Time and Agent are bound to None.
\<close>

theorem process_unit_fes_witness:
  "process_unit insertion_order second_choice ''u1'' [example_row_a, example_row_b] =
     Inr \<lparr>id_field = ''a'', sentence = ''s'', frame = ''F'',
          fes = [(''Place'', Some ''1990''), (''Time'', None), (''Agent'', None)]\<rparr> \<and>
   (\<exists>s0 wins. first_row [example_row_a, example_row_b] = Inr s0 \<and>
      unit_elections insertion_order second_choice [example_row_a, example_row_b] = Inr wins \<and>
      distinct (map fst [(''Place'', Some ''1990''), (''Time'', None), (''Agent'', None)]) \<and>
      (\<forall>i v. map_of s0 (''fe_'' @ fmt02 i) = Some v \<and> v \<noteq> [] \<longrightarrow>
         map_of [(''Place'', Some ''1990''), (''Time'', None), (''Agent'', None)] v \<noteq> None \<and>
         (v \<notin> fst ` set wins \<longrightarrow>
            map_of [(''Place'', Some ''1990''), (''Time'', None), (''Agent'', None)] v = Some None)) \<and>
      (\<forall>fe c1 c2. (fe, c1) \<in> set wins \<and> (fe, c2) \<in> set wins \<and> c1 \<noteq> c2 \<longrightarrow>
         (\<exists>c. (fe, c) \<in> set wins \<and>
            map_of [(''Place'', Some ''1990''), (''Time'', None), (''Agent'', None)] fe = Some (Some c) \<and>
            (\<forall>fe'. (c1 \<noteq> c \<longrightarrow>
                     (fe', Some c1) \<notin> set [(''Place'', Some ''1990''), (''Time'', None), (''Agent'', None)]) \<and>
                   (c2 \<noteq> c \<longrightarrow>
                     (fe', Some c2) \<notin> set [(''Place'', Some ''1990''), (''Time'', None), (''Agent'', None)])))))"
proof -
  have run: "process_unit insertion_order second_choice ''u1'' [example_row_a, example_row_b] =
     Inr \<lparr>id_field = ''a'', sentence = ''s'', frame = ''F'',
          fes = [(''Place'', Some ''1990''), (''Time'', None), (''Agent'', None)]\<rparr>"
    by code_simp
  from process_unit_fes [OF run] run show ?thesis by simp
qed

section \<open>The assertions\<close>

lemma all_unit_id_value:
  "list_all (\<lambda>s. map_of s ''_unit_id'' \<noteq> None) ss \<Longrightarrow>
     all_unit_id unit_id ss = Inr (unit_id_matches unit_id ss)"
  by (induction ss) (auto simp: unit_id_matches_def getitem_def)

lemma column_value:
  "list_all (\<lambda>s. map_of s k \<noteq> None) ss \<Longrightarrow> column k ss = Inr (map (\<lambda>s. the (map_of s k)) ss)"
  by (induction ss) (auto simp: getitem_def)

lemma remdups_single: "length (remdups vs) = 1 \<longleftrightarrow> vs \<noteq> [] \<and> (\<forall>x \<in> set vs. \<forall>y \<in> set vs. x = y)"
proof
  assume "length (remdups vs) = 1"
  then have "card (set vs) = 1" by (simp add: length_remdups_card_conv)
  then obtain x where "set vs = {x}" by (auto simp: card_1_singleton_iff)
  then show "vs \<noteq> [] \<and> (\<forall>x \<in> set vs. \<forall>y \<in> set vs. x = y)" by auto
next
  assume "vs \<noteq> [] \<and> (\<forall>x \<in> set vs. \<forall>y \<in> set vs. x = y)"
  then have "set vs = {hd vs}" by (cases vs) auto
  then have "card (set vs) = 1" by simp
  then show "length (remdups vs) = 1" by (simp add: length_remdups_card_conv)
qed

lemma one_value_value:
  assumes "list_all (\<lambda>s. map_of s k \<noteq> None) ss"
  shows "one_value k ss = Inr (ss \<noteq> [] \<and> (\<forall>s \<in> set ss. \<forall>s' \<in> set ss. map_of s k = map_of s' k))"
proof -
  have e: "map_of s k = Some (the (map_of s k))" if "s \<in> set ss" for s
    using assms that by (auto simp: list_all_iff)
  have "the (map_of s k) = the (map_of s' k) \<longleftrightarrow> map_of s k = map_of s' k"
    if "s \<in> set ss" "s' \<in> set ss" for s s'
    using e [OF that(1)] e [OF that(2)] by auto
  then have eq: "(\<forall>x \<in> set (map (\<lambda>s. the (map_of s k)) ss). \<forall>y \<in> set (map (\<lambda>s. the (map_of s k)) ss). x = y)
      \<longleftrightarrow> (\<forall>s \<in> set ss. \<forall>s' \<in> set ss. map_of s k = map_of s' k)"
    by simp
  have "one_value k ss = Inr (length (remdups (map (\<lambda>s. the (map_of s k)) ss)) = 1)"
    by (simp add: one_value_def column_value [OF assms])
  also have "(length (remdups (map (\<lambda>s. the (map_of s k)) ss)) = 1) =
      (ss \<noteq> [] \<and> (\<forall>s \<in> set ss. \<forall>s' \<in> set ss. map_of s k = map_of s' k))"
    unfolding remdups_single eq by simp
  finally show ?thesis .
qed


lemma check_unit_value:
  assumes "sentences \<noteq> []" "has_fields sentences"
  shows "check_unit unit_id sentences =
          (if unit_id_matches unit_id sentences \<and> \<not> rows_differ sentences then Inr ()
           else Inl AssertionError)"
proof -
  from assms(2) have f: "list_all (\<lambda>s. map_of s k \<noteq> None) sentences"
    if "k \<in> set required_fields" for k
    using that by (auto simp: has_fields_def list_all_iff)
  have u: "all_unit_id unit_id sentences = Inr (unit_id_matches unit_id sentences)"
    by (rule all_unit_id_value) (rule f, simp add: required_fields_def)
  have o: "one_value k sentences = Inr (same_on k sentences)"
    if "k \<in> set required_fields" for k
    using one_value_value [OF f [OF that]] assms(1) by (simp add: same_on_def)
  have o1: "one_value ''id'' sentences = Inr (same_on ''id'' sentences)"
    and o2: "one_value ''sentence'' sentences = Inr (same_on ''sentence'' sentences)"
    and o3: "one_value ''frame'' sentences = Inr (same_on ''frame'' sentences)"
    by (rule o, simp add: required_fields_def)+
  have "rows_differ sentences \<longleftrightarrow> (\<exists>k \<in> set required_fields. \<not> same_on k sentences)"
    unfolding rows_differ_def same_on_def list_ex_iff by blast
  then have d: "rows_differ sentences \<longleftrightarrow>
     \<not> (same_on ''_unit_id'' sentences \<and> same_on ''id'' sentences \<and>
        same_on ''sentence'' sentences \<and> same_on ''frame'' sentences)"
    by (simp add: required_fields_def)
  have m: "unit_id_matches unit_id sentences \<Longrightarrow> same_on ''_unit_id'' sentences"
    by (auto simp: unit_id_matches_def list_all_iff same_on_def)
  show ?thesis
    unfolding check_unit_def u o1 o2 o3 d py_assert_def
    using m by (cases "unit_id_matches unit_id sentences"; cases "same_on ''id'' sentences";
      cases "same_on ''sentence'' sentences"; cases "same_on ''frame'' sentences") simp_all
qed

lemma getitem_no_assert [simp]: "getitem d k \<noteq> Inl AssertionError"
  by (simp add: getitem_def split: option.splits)

lemma first_row_no_assert [simp]: "first_row ss \<noteq> Inl AssertionError"
  by (simp add: first_row_def split: list.splits)

lemma py_int_no_assert [simp]: "py_int s \<noteq> Inl AssertionError"
  by (simp add: py_int_def Let_def)

lemma key_index_no_assert [simp]: "key_index k \<noteq> Inl AssertionError"
  by (simp add: key_index_def split: list.splits)

lemma key_indices_no_assert [simp]: "key_indices prefix ks \<noteq> Inl AssertionError"
  by (induction ks) (auto simp: and_then_Inl_iff)

lemma py_max_no_assert [simp]: "py_max xs \<noteq> Inl AssertionError"
  by (simp add: py_max_def split: list.splits)

lemma index_count_no_assert [simp]: "index_count prefix s0 \<noteq> Inl AssertionError"
  by (auto simp: index_count_def and_then_Inl_iff)

lemma row_judgments_no_assert [simp]: "row_judgments each is cs \<noteq> Inl AssertionError"
  by (induction "is" arbitrary: cs) (auto simp: and_then_Inl_iff)

lemma xrange_no_assert [simp]: "xrange n \<noteq> Inl AssertionError"
  by (simp add: xrange_def)

lemma all_judgments_no_assert [simp]: "all_judgments ss n cs \<noteq> Inl AssertionError"
  by (induction ss arbitrary: cs) (auto simp: and_then_Inl_iff)

lemma elect_no_assert [simp]: "elect h r js \<noteq> Inl AssertionError"
  by (auto simp: elect_def Let_def and_then_Inl_iff random_choice_def split: if_splits)

lemma vote_no_assert [simp]: "vote h rnd n items acc \<noteq> Inl AssertionError"
  by (induction items arbitrary: n acc) (auto simp: and_then_Inl_iff)

lemma fill_missing_no_assert [simp]: "fill_missing s0 is acc \<noteq> Inl AssertionError"
  by (induction "is" arbitrary: acc) (auto simp: and_then_Inl_iff)

lemma build_unit_no_assert: "build_unit h rnd sentences \<noteq> Inl AssertionError"
  by (auto simp: build_unit_def and_then_Inl_iff)

lemma row_judgments_Inr_iff:
  "(\<exists>cs'. row_judgments each is cs = Inr cs') \<longleftrightarrow>
     list_all (\<lambda>i. map_of each (''answer_chunk_'' @ fmt02 i) \<noteq> None \<and>
                   map_of each (''chunk_'' @ fmt02 i) \<noteq> None) is"
proof (induction "is" arbitrary: cs)
  case Nil
  then show ?case by simp
next
  case (Cons i "is")
  show ?case
  proof (cases "map_of each (''answer_chunk_'' @ fmt02 i)")
    case None
    then show ?thesis by (simp add: getitem_def)
  next
    case fe: (Some fe)
    show ?thesis
    proof (cases "map_of each (''chunk_'' @ fmt02 i)")
      case None
      with fe show ?thesis by (simp add: getitem_def)
    next
      case (Some chunk)
      with fe Cons.IH show ?thesis by (simp add: getitem_def)
    qed
  qed
qed

lemma all_judgments_Inr_iff:
  "(\<exists>cs'. all_judgments ss n cs = Inr cs') \<longleftrightarrow>
     (ss = [] \<or> n \<le> sys_maxint) \<and>
     list_all (\<lambda>each. list_all (\<lambda>i. map_of each (''answer_chunk_'' @ fmt02 i) \<noteq> None \<and>
                   map_of each (''chunk_'' @ fmt02 i) \<noteq> None) [0..<nat n]) ss"
proof (induction ss arbitrary: cs)
  case Nil
  then show ?case by simp
next
  case (Cons each ss)
  show ?case
  proof (cases "n \<le> sys_maxint")
    case False
    then show ?thesis by (simp add: xrange_def)
  next
    case True
    then have x: "xrange n = Inr [0..<nat n]" by (simp add: xrange_def)
    show ?thesis
    proof (cases "row_judgments each [0..<nat n] cs")
      case (Inl e)
      with row_judgments_Inr_iff [of each "[0..<nat n]" cs] x show ?thesis by simp
    next
      case (Inr cs1)
      with row_judgments_Inr_iff [of each "[0..<nat n]" cs] Cons.IH [of cs1] x True
      show ?thesis by auto
    qed
  qed
qed

lemma vote_total:
  "(\<forall>c js. (c, js) \<in> set items \<longrightarrow> js \<noteq> []) \<Longrightarrow> \<exists>out. vote h rnd n items acc = Inr out"
proof (induction items arbitrary: n acc)
  case Nil
  then show ?case by simp
next
  case (Cons it items)
  obtain c js where it: "it = (c, js)" by (cases it)
  with Cons.prems have "js \<noteq> []" by auto
  from elect_total [OF this] obtain fe where "elect h (rnd n) js = Inr fe" by blast
  moreover from Cons.prems have "\<forall>c js. (c, js) \<in> set items \<longrightarrow> js \<noteq> []" by auto
  from Cons.IH [OF this] obtain out where
    "vote h rnd (Suc n) items (AList.update fe (Some c) acc) = Inr out" by blast
  ultimately show ?case by (simp add: it)
qed

lemma fill_missing_Inr_iff:
  "(\<exists>out. fill_missing s0 is acc = Inr out) \<longleftrightarrow>
     list_all (\<lambda>i. map_of s0 (''fe_'' @ fmt02 i) \<noteq> None) is"
proof (induction "is" arbitrary: acc)
  case Nil
  then show ?case by simp
next
  case (Cons i "is")
  show ?case
  proof (cases "map_of s0 (''fe_'' @ fmt02 i)")
    case None
    then show ?thesis by (simp add: getitem_def)
  next
    case (Some fe)
    with Cons.IH show ?thesis by (simp add: getitem_def)
  qed
qed

lemma build_unit_Inr_iff:
  assumes "has_fields sentences"
  shows "(\<exists>u. build_unit h rnd sentences = Inr u) \<longleftrightarrow> columns_ok sentences"
proof (cases sentences)
  case Nil
  then show ?thesis by (simp add: build_unit_def columns_ok_def first_row_def)
next
  case (Cons s0 rest)
  from assms Cons have "list_all (\<lambda>k. map_of s0 k \<noteq> None) required_fields"
    by (simp add: has_fields_def)
  then obtain i s f where g: "getitem s0 ''id'' = Inr i" "getitem s0 ''sentence'' = Inr s"
    "getitem s0 ''frame'' = Inr f"
    by (auto simp: required_fields_def getitem_def)
  have fr: "first_row sentences = Inr s0" by (simp add: Cons first_row_def)
  have ne: "sentences \<noteq> []" by (simp add: Cons)
  let ?J = "\<lambda>cc. list_all (\<lambda>each. list_all (\<lambda>i.
              map_of each (''answer_chunk_'' @ fmt02 i) \<noteq> None \<and>
              map_of each (''chunk_'' @ fmt02 i) \<noteq> None) [0..<nat cc]) sentences"
  let ?F = "\<lambda>fc. list_all (\<lambda>i. map_of s0 (''fe_'' @ fmt02 i) \<noteq> None) [0..<nat fc]"
  have co: "columns_ok sentences =
      (case index_count ''chunk_'' s0 of Inl _ \<Rightarrow> False
       | Inr cc \<Rightarrow> (case index_count ''fe_'' s0 of Inl _ \<Rightarrow> False
           | Inr fc \<Rightarrow> cc \<le> sys_maxint \<and> fc \<le> sys_maxint \<and> ?J cc \<and> ?F fc))"
    unfolding columns_ok_def Cons by simp
  show ?thesis
  proof (cases "index_count ''chunk_'' s0")
    case (Inl e)
    with fr show ?thesis by (simp add: co build_unit_def)
  next
    case cc: (Inr cc)
    show ?thesis
    proof (cases "index_count ''fe_'' s0")
      case (Inl e)
      with fr cc show ?thesis by (simp add: co build_unit_def)
    next
      case fc: (Inr fc)
      have co': "columns_ok sentences \<longleftrightarrow> cc \<le> sys_maxint \<and> fc \<le> sys_maxint \<and> ?J cc \<and> ?F fc"
        using cc fc by (simp add: co)
      show ?thesis
      proof (cases "all_judgments sentences cc []")
        case (Inl e)
        with all_judgments_Inr_iff [of sentences cc "[]"] ne
        have "\<not> (cc \<le> sys_maxint \<and> ?J cc)" by simp
        with Inl fr cc fc show ?thesis by (auto simp: co' build_unit_def)
      next
        case js: (Inr chunks)
        with all_judgments_Inr_iff [of sentences cc "[]"] ne
        have J: "cc \<le> sys_maxint" "?J cc" by auto
        have "chunks_ok chunks" using chunks_ok_all [OF js] by (simp add: chunks_ok_def)
        then have "\<forall>c js. (c, js) \<in> set (iteritems h chunks) \<longrightarrow> js \<noteq> []"
          by (simp add: chunks_ok_def)
        from vote_total [OF this] obtain voted where
          v: "vote h rnd 0 (iteritems h chunks) [] = Inr voted" by blast
        show ?thesis
        proof (cases "fc \<le> sys_maxint")
          case False
          then have "xrange fc = Inl OverflowError" by (simp add: xrange_def)
          with False fr cc fc js v show ?thesis by (simp add: co' build_unit_def)
        next
          case True
          then have x: "xrange fc = Inr [0..<nat fc]" by (simp add: xrange_def)
          show ?thesis
          proof (cases "fill_missing s0 [0..<nat fc] voted")
            case (Inl e)
            with fill_missing_Inr_iff [of s0 "[0..<nat fc]" voted] have "\<not> ?F fc" by simp
            with Inl fr cc fc js v x show ?thesis by (simp add: co' build_unit_def)
          next
            case (Inr filled)
            with fill_missing_Inr_iff [of s0 "[0..<nat fc]" voted] have "?F fc" by auto
            with J True Inr fr cc fc js v x g show ?thesis by (simp add: co' build_unit_def)
          qed
        qed
      qed
    qed
  qed
qed

text \<open>
  Past the assertions the call can still fail: an index of \<^verbatim>\<open>sys.maxint\<close> makes
  \<open>chunk_count\<close> too large for \<^verbatim>\<open>xrange\<close> of line 28.
\<close>

lemma digits_value_maxint: "digits_value ''9223372036854775807'' = 9223372036854775807"
  by (simp add: digits_value_def digit_val_def)

lemma py_int_maxint: "py_int ''9223372036854775807'' = Inr 9223372036854775807"
  by (simp add: py_int_def strip_def is_space_def is_digit_def digits_value_maxint)

lemma chunk_count_long: "index_count ''chunk_'' example_row_long = Inr 9223372036854775808"
  by (simp add: index_count_def example_row_long_def re_match_index_def key_index_def
      py_int_maxint and_then_def py_max_def is_digit_def)

lemma fe_count_long: "index_count ''fe_'' example_row_long = Inr 1"
  by code_simp

lemma check_unit_long: "check_unit ''u1'' [example_row_long] = Inr ()"
  by code_simp

lemma process_unit_overflow_example:
  "process_unit insertion_order first_choice ''u1'' [example_row_long] = Inl OverflowError"
  by (simp add: process_unit_def build_unit_def chunk_count_long fe_count_long check_unit_long
      first_row_def and_then_def xrange_def sys_maxint_def)

text \<open>
  C6, as the code has it, for rows as long as the header of the results file, so that
  every key and every cell is a string. For a non-empty list of such rows that all have
  the fields \<^verbatim>\<open>_unit_id\<close>, \<^verbatim>\<open>id\<close>, \<^verbatim>\<open>sentence\<close> and \<^verbatim>\<open>frame\<close>, \<open>process_unit\<close> raises
  AssertionError, and so produces nothing, exactly when two rows differ in one of these
  fields or a row's \<^verbatim>\<open>_unit_id\<close> is not the \<open>unit_id\<close> argument. It returns a unit exactly
  when the rows agree on the four fields, carry \<open>unit_id\<close>, and have the columns that
  lines 22 to 49 read: the first row has a \<^verbatim>\<open>chunk_N\<close> and an \<^verbatim>\<open>fe_N\<close> header, the index
  of every such header parses, \<open>chunk_count\<close> and \<open>fe_count\<close> are at most \<^verbatim>\<open>sys.maxint\<close>,
  every row has the \<^verbatim>\<open>answer_chunk_NN\<close> and \<^verbatim>\<open>chunk_NN\<close> columns below \<open>chunk_count\<close>, and
  the first row the \<^verbatim>\<open>fe_NN\<close> columns below \<open>fe_count\<close>. Which exception ends a call that
  passes the assertions and returns no unit is not part of the statement.
\<close>

theorem process_unit_assertions:
  assumes "sentences \<noteq> []" and "has_fields sentences"
  shows "(process_unit h rnd unit_id sentences = Inl AssertionError) =
           (rows_differ sentences \<or> \<not> unit_id_matches unit_id sentences) \<and>
         (\<exists>u. process_unit h rnd unit_id sentences = Inr u) =
           (\<not> rows_differ sentences \<and> unit_id_matches unit_id sentences \<and> columns_ok sentences)"
proof (cases "unit_id_matches unit_id sentences \<and> \<not> rows_differ sentences")
  case True
  with check_unit_value [OF assms, of unit_id] have "check_unit unit_id sentences = Inr ()"
    by simp
  then have "process_unit h rnd unit_id sentences = build_unit h rnd sentences"
    by (simp add: process_unit_def)
  with True build_unit_no_assert [of h rnd sentences] build_unit_Inr_iff [OF assms(2), of h rnd]
  show ?thesis by simp
next
  case False
  with check_unit_value [OF assms, of unit_id]
  have "check_unit unit_id sentences = Inl AssertionError" by simp
  then have "process_unit h rnd unit_id sentences = Inl AssertionError"
    by (simp add: process_unit_def)
  with False show ?thesis by auto
qed

text \<open>
  The theorem at two units: two judgments of different sentences raise AssertionError,
  and the two judgments of the example unit give a unit.
\<close>

theorem process_unit_assertions_witness:
  "has_fields [example_row_a, example_row_c] \<and> rows_differ [example_row_a, example_row_c] \<and>
   process_unit insertion_order first_choice ''u1'' [example_row_a, example_row_c] =
     Inl AssertionError \<and>
   has_fields [example_row_a, example_row_b] \<and> \<not> rows_differ [example_row_a, example_row_b] \<and>
   unit_id_matches ''u1'' [example_row_a, example_row_b] \<and>
   columns_ok [example_row_a, example_row_b] \<and>
   (\<exists>u. process_unit insertion_order first_choice ''u1'' [example_row_a, example_row_b] = Inr u)"
proof -
  have f1: "has_fields [example_row_a, example_row_c]" by code_simp
  have d1: "rows_differ [example_row_a, example_row_c]" by code_simp
  have f2: "has_fields [example_row_a, example_row_b]" by code_simp
  have d2: "\<not> rows_differ [example_row_a, example_row_b]" by code_simp
  have m2: "unit_id_matches ''u1'' [example_row_a, example_row_b]" by code_simp
  have c2: "columns_ok [example_row_a, example_row_b]" by code_simp
  from process_unit_assertions [OF _ f1, of insertion_order first_choice "''u1''"] d1
  have "process_unit insertion_order first_choice ''u1'' [example_row_a, example_row_c] =
     Inl AssertionError" by simp
  moreover
  from process_unit_assertions [OF _ f2, of insertion_order first_choice "''u1''"] d2 m2 c2
  have "\<exists>u. process_unit insertion_order first_choice ''u1'' [example_row_a, example_row_b] = Inr u"
    by simp
  ultimately show ?thesis using f1 d1 f2 d2 m2 c2 by simp
qed

text \<open>
  C6 as stated fails twice. A single row agrees with itself on the four fields, yet
  without a \<^verbatim>\<open>chunk_N\<close> header \<^verbatim>\<open>max\<close> of line 22 raises ValueError and no unit is
  returned; and the rows of the example unit agree, yet under another \<open>unit_id\<close> the
  assertion of line 17 fires.
\<close>

theorem process_unit_agreeing_rows_counterexample:
  "has_fields [example_row_bare] \<and> \<not> rows_differ [example_row_bare] \<and>
   process_unit insertion_order first_choice ''u1'' [example_row_bare] = Inl ValueError \<and>
   has_fields [example_row_a, example_row_b] \<and> \<not> rows_differ [example_row_a, example_row_b] \<and>
   process_unit insertion_order first_choice ''u2'' [example_row_a, example_row_b] =
     Inl AssertionError"
  by code_simp

section \<open>One line per unit\<close>

lemma group_rows_distinct:
  "group_rows results acc = Inr groups \<Longrightarrow> distinct (map fst acc) \<Longrightarrow> distinct (map fst groups)"
  by (induction results arbitrary: acc) (auto simp: and_then_Inr_iff distinct_update)

lemma group_rows_map_of:
  "group_rows results acc = Inr groups \<Longrightarrow>
     map_of groups k =
       (if rows_of k results = [] then map_of acc k
        else Some ((case map_of acc k of None \<Rightarrow> [] | Some v \<Rightarrow> v) @ rows_of k results))"
proof (induction results arbitrary: acc)
  case Nil
  then show ?case by (simp add: rows_of_def)
next
  case (Cons each rest)
  from Cons.prems obtain k' where k': "map_of each ''_unit_id'' = Some k'"
    and g: "group_rows rest
         (AList.update k' ((case map_of acc k' of None \<Rightarrow> [] | Some v \<Rightarrow> v) @ [each]) acc) = Inr groups"
    by (auto simp: and_then_Inr_iff getitem_def split: option.splits)
  from Cons.IH [OF g] k' show ?case
    by (auto simp: rows_of_def update_conv' split: option.splits)
qed

lemma group_rows_total:
  "has_unit_ids results \<Longrightarrow> \<exists>groups. group_rows results acc = Inr groups"
  by (induction results arbitrary: acc) (auto simp: has_unit_ids_def getitem_def)

lemma rows_of_nonempty_iff:
  "rows_of k results \<noteq> [] \<longleftrightarrow> k \<in> set (unit_ids results)"
proof -
  have "set (unit_ids results) = {k. \<exists>r \<in> set results. map_of r ''_unit_id'' = Some k}"
    by (force simp: unit_ids_def map_filter_def)
  then show ?thesis by (auto simp: rows_of_def filter_empty_conv)
qed

lemma write_units_spec:
  "write_units hs rnd n items out0 = (out, err) \<Longrightarrow>
     \<exists>outs. out = out0 @ outs \<and> length outs \<le> length items \<and>
       (\<forall>j < length outs.
          process_unit (hs (n + j)) (rnd (n + j)) (fst (items ! j)) (snd (items ! j)) = Inr (outs ! j)) \<and>
       (case err of
          None \<Rightarrow> length outs = length items
        | Some e \<Rightarrow> length outs < length items \<and>
            process_unit (hs (n + length outs)) (rnd (n + length outs)) (fst (items ! length outs))
              (snd (items ! length outs)) = Inl e)"
proof (induction items arbitrary: n out0)
  case Nil
  then show ?case by auto
next
  case (Cons it items)
  obtain k v where it: "it = (k, v)" by (cases it)
  show ?case
  proof (cases "process_unit (hs n) (rnd n) k v")
    case (Inl e)
    with Cons.prems it have "out = out0" "err = Some e" by simp_all
    with Inl it show ?thesis by simp
  next
    case (Inr processed)
    with Cons.prems it have "write_units hs rnd (Suc n) items (out0 @ [processed]) = (out, err)"
      by simp
    from Cons.IH [OF this] obtain outs where o: "out = (out0 @ [processed]) @ outs"
      and l: "length outs \<le> length items"
      and p: "\<forall>j < length outs.
          process_unit (hs (Suc n + j)) (rnd (Suc n + j)) (fst (items ! j)) (snd (items ! j)) = Inr (outs ! j)"
      and e: "(case err of
          None \<Rightarrow> length outs = length items
        | Some e \<Rightarrow> length outs < length items \<and>
            process_unit (hs (Suc n + length outs)) (rnd (Suc n + length outs)) (fst (items ! length outs))
              (snd (items ! length outs)) = Inl e)"
      by blast
    have "\<forall>j < length (processed # outs).
          process_unit (hs (n + j)) (rnd (n + j)) (fst ((it # items) ! j)) (snd ((it # items) ! j)) =
            Inr ((processed # outs) ! j)"
      using p Inr it by (auto simp: nth_Cons split: nat.splits)
    moreover have "(case err of
          None \<Rightarrow> length (processed # outs) = length (it # items)
        | Some e \<Rightarrow> length (processed # outs) < length (it # items) \<and>
            process_unit (hs (n + length (processed # outs))) (rnd (n + length (processed # outs)))
              (fst ((it # items) ! length (processed # outs)))
              (snd ((it # items) ! length (processed # outs))) = Inl e)"
      using e by (cases err) auto
    moreover have "out = out0 @ (processed # outs)" using o by simp
    moreover have "length (processed # outs) \<le> length (it # items)" using l by simp
    ultimately show ?thesis by blast
  qed
qed

lemma column_Inr_iff: "column k ss = Inr vs \<longleftrightarrow> map (\<lambda>s. map_of s k) ss = map Some vs"
proof (induction ss arbitrary: vs)
  case Nil
  then show ?case by auto
next
  case (Cons s ss)
  show ?case
  proof (cases "map_of s k")
    case None
    then show ?thesis by (cases vs) (auto simp: getitem_def)
  next
    case (Some v)
    with Cons.IH show ?thesis by (cases vs) (auto simp: getitem_def and_then_Inr_iff)
  qed
qed

lemma one_value_same:
  assumes "one_value k ss = Inr True" and "s \<in> set ss" and "s' \<in> set ss"
  shows "\<exists>v. map_of s k = Some v \<and> map_of s' k = Some v"
proof -
  from assms(1) obtain vs where c: "column k ss = Inr vs" and l: "length (remdups vs) = 1"
    by (auto simp: one_value_def and_then_Inr_iff)
  from c have m: "map (\<lambda>s. map_of s k) ss = map Some vs" by (simp add: column_Inr_iff)
  have "map_of x k \<in> Some ` set vs" if "x \<in> set ss" for x
  proof -
    from that have "map_of x k \<in> set (map (\<lambda>s. map_of s k) ss)" by simp
    then show ?thesis unfolding m by simp
  qed
  from this [OF assms(2)] this [OF assms(3)] obtain v v' where
    "map_of s k = Some v" "v \<in> set vs" "map_of s' k = Some v'" "v' \<in> set vs" by auto
  moreover from l have "\<forall>x \<in> set vs. \<forall>y \<in> set vs. x = y" unfolding remdups_single by simp
  ultimately show ?thesis by auto
qed

lemma process_unit_fields:
  assumes "process_unit h r k ss = Inr u" and "s \<in> set ss"
  shows "map_of s ''id'' = Some (id_field u) \<and> map_of s ''sentence'' = Some (sentence u) \<and>
         map_of s ''frame'' = Some (frame u)"
proof -
  from assms(1) have c: "check_unit k ss = Inr ()" and b: "build_unit h r ss = Inr u"
    by (auto simp: process_unit_def and_then_Inr_iff)
  from c have o: "one_value ''id'' ss = Inr True" "one_value ''sentence'' ss = Inr True"
    "one_value ''frame'' ss = Inr True"
    by (auto simp: check_unit_def and_then_Inr_iff py_assert_Inr_iff)
  from b obtain s0 where s0: "first_row ss = Inr s0" and g: "getitem s0 ''id'' = Inr (id_field u)"
    "getitem s0 ''sentence'' = Inr (sentence u)" "getitem s0 ''frame'' = Inr (frame u)"
    by (auto simp: build_unit_def and_then_Inr_iff)
  from s0 have m: "s0 \<in> set ss" by (auto simp: first_row_def split: list.splits)
  from g have "map_of s0 ''id'' = Some (id_field u)" "map_of s0 ''sentence'' = Some (sentence u)"
    "map_of s0 ''frame'' = Some (frame u)"
    by (auto simp: getitem_def split: option.splits)
  with one_value_same [OF o(1) assms(2) m] one_value_same [OF o(2) assms(2) m]
    one_value_same [OF o(3) assms(2) m]
  show ?thesis by auto
qed

text \<open>
  C4, as the code has it. When every row has a \<^verbatim>\<open>_unit_id\<close> cell, \<open>main\<close> groups the rows
  by it and walks the distinct identifiers in dictionary order \<open>ks\<close>. Each line written
  is the unit \<open>process_unit\<close> returns for the rows of one identifier, with \<open>id\<close>,
  \<open>sentence\<close> and \<open>frame\<close> the cells that every row of that identifier has. The run has
  written one line for each identifier, in order, up to the first one on which
  \<open>process_unit\<close> raises; it ends there with that exception. So there is exactly one
  line per distinct \<^verbatim>\<open>_unit_id\<close> exactly when \<open>process_unit\<close> returns on every group.
\<close>

theorem parse_results_main_lines:
  assumes "has_unit_ids results"
  shows "\<exists>ks. distinct ks \<and> set ks = set (unit_ids results) \<and>
     (case parse_results_main h hs rnd results of (out, err) \<Rightarrow>
        length out \<le> length ks \<and>
        (\<forall>j < length out.
           process_unit (hs j) (rnd j) (ks ! j) (rows_of (ks ! j) results) = Inr (out ! j) \<and>
           (\<forall>s \<in> set (rows_of (ks ! j) results).
              map_of s ''id'' = Some (id_field (out ! j)) \<and>
              map_of s ''sentence'' = Some (sentence (out ! j)) \<and>
              map_of s ''frame'' = Some (frame (out ! j)))) \<and>
        (case err of
           None \<Rightarrow> length out = length ks
         | Some e \<Rightarrow> length out < length ks \<and>
             process_unit (hs (length out)) (rnd (length out)) (ks ! length out)
               (rows_of (ks ! length out) results) = Inl e))"
proof -
  from group_rows_total [OF assms] obtain groups where g: "group_rows results [] = Inr groups"
    by blast
  define items where "items = iteritems h groups"
  define ks where "ks = map fst items"
  have dg: "distinct (map fst groups)" using group_rows_distinct [OF g] by simp
  then have dk: "distinct ks" by (simp add: ks_def items_def)
  have mo: "map_of groups k = (if rows_of k results = [] then None else Some (rows_of k results))"
    for k using group_rows_map_of [OF g, of k] by simp
  have "k \<in> set ks \<longleftrightarrow> k \<in> set (unit_ids results)" for k
  proof -
    have "k \<in> set ks \<longleftrightarrow> map_of groups k \<noteq> None"
      by (simp add: ks_def items_def map_of_eq_None_iff)
    then show ?thesis by (simp add: mo rows_of_nonempty_iff [symmetric])
  qed
  then have sk: "set ks = set (unit_ids results)" by blast
  have it: "fst (items ! j) = ks ! j \<and> snd (items ! j) = rows_of (ks ! j) results"
    if "j < length items" for j
  proof -
    from that have "items ! j \<in> set groups"
      using nth_mem [of j items] by (simp add: items_def)
    then have "map_of groups (fst (items ! j)) = Some (snd (items ! j))"
      using dg by simp
    then have "snd (items ! j) = rows_of (fst (items ! j)) results"
      by (simp add: mo split: if_splits)
    with that show ?thesis by (simp add: ks_def)
  qed
  obtain out err where r: "write_units hs rnd 0 items [] = (out, err)"
    by (cases "write_units hs rnd 0 items []")
  then have m: "parse_results_main h hs rnd results = (out, err)"
    by (simp add: parse_results_main_def g items_def)
  from write_units_spec [OF r] have l: "length out \<le> length items"
    and p: "\<forall>j < length out.
          process_unit (hs j) (rnd j) (fst (items ! j)) (snd (items ! j)) = Inr (out ! j)"
    and e: "(case err of
          None \<Rightarrow> length out = length items
        | Some e \<Rightarrow> length out < length items \<and>
            process_unit (hs (length out)) (rnd (length out)) (fst (items ! length out))
              (snd (items ! length out)) = Inl e)"
    by (auto split: option.splits)
  have lk: "length ks = length items" by (simp add: ks_def)
  have 1: "process_unit (hs j) (rnd j) (ks ! j) (rows_of (ks ! j) results) = Inr (out ! j) \<and>
           (\<forall>s \<in> set (rows_of (ks ! j) results).
              map_of s ''id'' = Some (id_field (out ! j)) \<and>
              map_of s ''sentence'' = Some (sentence (out ! j)) \<and>
              map_of s ''frame'' = Some (frame (out ! j)))"
    if "j < length out" for j
  proof -
    from that l have "j < length items" by simp
    from it [OF this] p that
    have pu: "process_unit (hs j) (rnd j) (ks ! j) (rows_of (ks ! j) results) = Inr (out ! j)"
      by auto
    with process_unit_fields [OF pu] show ?thesis by blast
  qed
  have 2: "(case err of
           None \<Rightarrow> length out = length ks
         | Some e \<Rightarrow> length out < length ks \<and>
             process_unit (hs (length out)) (rnd (length out)) (ks ! length out)
               (rows_of (ks ! length out) results) = Inl e)"
  proof (cases err)
    case None
    with e lk show ?thesis by simp
  next
    case (Some x)
    with e have "length out < length items" by simp
    from it [OF this] e lk Some show ?thesis by auto
  qed
  from dk sk l lk 1 2 show ?thesis unfolding m by auto
qed

text \<open>The theorem at a file of three rows and two units: two lines are written.\<close>

theorem parse_results_main_lines_witness:
  "has_unit_ids [example_row_a, example_row_d, example_row_b] \<and>
   parse_results_main insertion_order insertion_orders first_choices [example_row_a, example_row_d, example_row_b] =
     ([\<lparr>id_field = ''a'', sentence = ''s'', frame = ''F'',
         fes = [(''Place'', Some ''Rome''), (''Time'', Some ''1990''), (''Agent'', None)]\<rparr>,
       \<lparr>id_field = ''b'', sentence = ''x'', frame = ''G'', fes = [(''Place'', Some ''Paris'')]\<rparr>],
      None) \<and>
   (\<exists>ks. distinct ks \<and> set ks = set (unit_ids [example_row_a, example_row_d, example_row_b]) \<and>
     (case parse_results_main insertion_order insertion_orders first_choices
             [example_row_a, example_row_d, example_row_b] of (out, err) \<Rightarrow>
        length out \<le> length ks \<and>
        (\<forall>j < length out.
           process_unit (insertion_orders j) (first_choices j) (ks ! j)
             (rows_of (ks ! j) [example_row_a, example_row_d, example_row_b]) = Inr (out ! j) \<and>
           (\<forall>s \<in> set (rows_of (ks ! j) [example_row_a, example_row_d, example_row_b]).
              map_of s ''id'' = Some (id_field (out ! j)) \<and>
              map_of s ''sentence'' = Some (sentence (out ! j)) \<and>
              map_of s ''frame'' = Some (frame (out ! j)))) \<and>
        (case err of
           None \<Rightarrow> length out = length ks
         | Some e \<Rightarrow> length out < length ks \<and>
             process_unit (insertion_orders (length out)) (first_choices (length out)) (ks ! length out)
               (rows_of (ks ! length out) [example_row_a, example_row_d, example_row_b]) = Inl e)))"
proof -
  have ids: "has_unit_ids [example_row_a, example_row_d, example_row_b]" by code_simp
  have run: "parse_results_main insertion_order insertion_orders first_choices
       [example_row_a, example_row_d, example_row_b] =
     ([\<lparr>id_field = ''a'', sentence = ''s'', frame = ''F'',
         fes = [(''Place'', Some ''Rome''), (''Time'', Some ''1990''), (''Agent'', None)]\<rparr>,
       \<lparr>id_field = ''b'', sentence = ''x'', frame = ''G'', fes = [(''Place'', Some ''Paris'')]\<rparr>],
      None)"
    by code_simp
  from parse_results_main_lines
    [OF ids, where h = insertion_order and hs = insertion_orders and rnd = first_choices] ids run
  show ?thesis by blast
qed

text \<open>
  C4 as stated fails on a file whose two rows share a \<^verbatim>\<open>_unit_id\<close> and differ in the
  sentence: the file has one distinct identifier, the assertion of line 19 fires, and
  no line is written.
\<close>

theorem parse_results_main_counterexample:
  "unit_ids [example_row_a, example_row_c] = [''u1''] \<and>
   parse_results_main insertion_order insertion_orders first_choices [example_row_a, example_row_c] =
     ([], Some AssertionError)"
  by code_simp

section \<open>What tag\_many yields\<close>

lemma postprocess_tags_True: "postprocess_tags tags True = Inr (known_tags tags)"
  by (induction tags True rule: postprocess_tags.induct) (simp_all add: known_tags_def)

lemma yielded_append: "yielded (evs @ evs') = yielded evs @ yielded evs'"
  by (induction evs rule: yielded.induct) simp_all

lemma finalize_batch_eq:
  "finalize_batch jobs pos_tag_key =
     (concat (map (\<lambda>j. [WaitFinished (fst j), Yield (annotated pos_tag_key j)]) jobs), None)"
proof (induction jobs)
  case Nil
  then show ?case by simp
next
  case (Cons j jobs)
  obtain item result where j: "j = (item, result)" by (cases j)
  show ?case by (simp add: j Cons.IH postprocess_tags_True annotated_def)
qed

lemma finalize_batch_None: "snd (finalize_batch jobs pos_tag_key) = None"
  by (simp add: finalize_batch_eq)

lemma finalize_batch_yielded:
  "yielded (fst (finalize_batch jobs pos_tag_key)) = map (annotated pos_tag_key) jobs"
  unfolding finalize_batch_eq by (induction jobs) simp_all

lemma tag_loop_yields:
  assumes "batch_size \<noteq> 0"
  shows "snd (tag_loop tagger dk pk batch_size i items jobs) = None \<and>
         yielded (fst (tag_loop tagger dk pk batch_size i items jobs)) =
           map (annotated pk) jobs @
           map (\<lambda>item. annotated pk (item, tagger (the (map_of item dk)))) (filter (eligible dk) items)"
proof (induction items arbitrary: i jobs)
  case Nil
  then show ?case by (simp add: finalize_batch_None finalize_batch_yielded)
next
  case (Cons item items)
  show ?case
  proof (cases "eligible dk item")
    case False
    then have "tag_loop tagger dk pk batch_size i (item # items) jobs =
               tag_loop tagger dk pk batch_size (Suc i) items jobs"
      by (cases "map_of item dk") (simp_all add: eligible_def)
    with Cons.IH [of "Suc i" jobs] False show ?thesis by simp
  next
    case True
    then obtain tx where t: "map_of item dk = Some tx" and tr: "truthy (Some tx)"
      by (cases "map_of item dk") (auto simp: eligible_def)
    let ?jobs = "jobs @ [(item, tagger tx)]"
    show ?thesis
    proof (cases "int i mod batch_size = 0")
      case flush: True
      obtain evs where f: "finalize_batch ?jobs pk = (evs, None)"
        using finalize_batch_None [of ?jobs pk] by (cases "finalize_batch ?jobs pk") auto
      obtain evs' err where l: "tag_loop tagger dk pk batch_size (Suc i) items [] = (evs', err)"
        by (cases "tag_loop tagger dk pk batch_size (Suc i) items []")
      from t tr flush assms f l
      have eq: "tag_loop tagger dk pk batch_size i (item # items) jobs =
                 (TagTextAsync item # evs @ evs', err)"
        by simp
      from finalize_batch_yielded [of ?jobs pk] f have "yielded evs = map (annotated pk) ?jobs"
        by simp
      with Cons.IH [of "Suc i" "[]"] l True t show ?thesis
        unfolding eq by (simp add: yielded_append)
    next
      case keep: False
      obtain evs' err where l: "tag_loop tagger dk pk batch_size (Suc i) items ?jobs = (evs', err)"
        by (cases "tag_loop tagger dk pk batch_size (Suc i) items ?jobs")
      from t tr keep assms l
      have eq: "tag_loop tagger dk pk batch_size i (item # items) jobs = (TagTextAsync item # evs', err)"
        by simp
      from Cons.IH [of "Suc i" ?jobs] l True t show ?thesis
        unfolding eq by simp
    qed
  qed
qed

lemma map_of_annotated:
  "map_of (annotated pk (item, res)) k = (if k = pk then Some (Tagged (known_tags res)) else map_of item k)"
  by (simp add: annotated_def update_conv')

lemma annotated_item:
  assumes "eligible dk item"
  shows "(\<exists>tx tags. map_of item dk = Some tx \<and> postprocess_tags (tagger tx) True = Inr tags \<and>
            map_of (annotated pk (item, tagger (the (map_of item dk)))) pk = Some (Tagged tags)) \<and>
         (\<forall>k. k \<noteq> pk \<longrightarrow> map_of (annotated pk (item, tagger (the (map_of item dk)))) k = map_of item k)"
  using assms
  by (cases "map_of item dk") (auto simp: eligible_def map_of_annotated postprocess_tags_True)

text \<open>
  C8, as the code has it. For a \<open>batch_size\<close> other than 0 the run ends without an
  exception, and the items yielded are, in input order, the items whose value under
  \<open>document_key\<close> is neither missing nor empty, one for one: each is yielded with the
  result of \<open>_postprocess_tags\<close> on its job stored under \<open>pos_tag_key\<close> and every other
  key bound as in the input item. An item whose value is missing or empty is omitted.
\<close>

theorem tag_many_yields:
  assumes "batch_size \<noteq> 0"
  shows "snd (tag_many tagger items document_key pos_tag_key batch_size) = None \<and>
         list_all2
           (\<lambda>item y.
              (\<exists>tx tags. map_of item document_key = Some tx \<and>
                 postprocess_tags (tagger tx) True = Inr tags \<and>
                 map_of y pos_tag_key = Some (Tagged tags)) \<and>
              (\<forall>k. k \<noteq> pos_tag_key \<longrightarrow> map_of y k = map_of item k))
           (filter (eligible document_key) items)
           (yielded (fst (tag_many tagger items document_key pos_tag_key batch_size)))"
proof -
  obtain evs err where l: "tag_loop tagger document_key pos_tag_key batch_size 0 items [] = (evs, err)"
    by (cases "tag_loop tagger document_key pos_tag_key batch_size 0 items []")
  from tag_loop_yields [OF assms, of tagger document_key pos_tag_key 0 items "[]"] l
  have e: "err = None"
    and y: "yielded evs =
      map (\<lambda>item. annotated pos_tag_key (item, tagger (the (map_of item document_key))))
        (filter (eligible document_key) items)"
    by simp_all
  have t: "tag_many tagger items document_key pos_tag_key batch_size = (evs @ [StopPoll], None)"
    by (simp add: tag_many_def l e)
  have "list_all2
           (\<lambda>item y.
              (\<exists>tx tags. map_of item document_key = Some tx \<and>
                 postprocess_tags (tagger tx) True = Inr tags \<and>
                 map_of y pos_tag_key = Some (Tagged tags)) \<and>
              (\<forall>k. k \<noteq> pos_tag_key \<longrightarrow> map_of y k = map_of item k))
           (filter (eligible document_key) items)
           (map (\<lambda>item. annotated pos_tag_key (item, tagger (the (map_of item document_key))))
              (filter (eligible document_key) items))"
    unfolding list_all2_map2 list_all2_same
    using annotated_item [where dk = document_key and pk = pos_tag_key and tagger = tagger]
    by simp
  then show ?thesis unfolding t by (simp add: yielded_append y)
qed

text \<open>The theorem at three documents, the second one empty, with a batch size of 1.\<close>

theorem tag_many_yields_witness:
  "(1::int) \<noteq> 0 \<and>
   snd (tag_many example_tagger [doc ''a'', doc [], doc ''c''] ''text'' ''pos_tag'' 1) = None \<and>
   yielded (fst (tag_many example_tagger [doc ''a'', doc [], doc ''c''] ''text'' ''pos_tag'' 1)) =
     [[(''text'', Text ''a''), (''pos_tag'', Tagged [Tag ''a'' ''NN'' ''a''])],
      [(''text'', Text ''c''), (''pos_tag'', Tagged [Tag ''c'' ''NN'' ''c''])]] \<and>
   list_all2
     (\<lambda>item y.
        (\<exists>tx tags. map_of item ''text'' = Some tx \<and>
           postprocess_tags (example_tagger tx) True = Inr tags \<and>
           map_of y ''pos_tag'' = Some (Tagged tags)) \<and>
        (\<forall>k. k \<noteq> ''pos_tag'' \<longrightarrow> map_of y k = map_of item k))
     (filter (eligible ''text'') [doc ''a'', doc [], doc ''c''])
     (yielded (fst (tag_many example_tagger [doc ''a'', doc [], doc ''c''] ''text'' ''pos_tag'' 1)))"
proof -
  have nz: "(1::int) \<noteq> 0" by simp
  have ys: "yielded (fst (tag_many example_tagger [doc ''a'', doc [], doc ''c''] ''text'' ''pos_tag'' 1)) =
     [[(''text'', Text ''a''), (''pos_tag'', Tagged [Tag ''a'' ''NN'' ''a''])],
      [(''text'', Text ''c''), (''pos_tag'', Tagged [Tag ''c'' ''NN'' ''c''])]]"
    by code_simp
  from tag_many_yields [OF nz, of example_tagger "[doc ''a'', doc [], doc ''c'']" "''text''" "''pos_tag''"] ys
  show ?thesis by simp
qed

text \<open>
  C8 as stated fails for a batch size of 0: the document has a text, its job is
  submitted, \<^verbatim>\<open>i % batch_size\<close> raises ZeroDivisionError, and the item is neither yielded
  nor one of those without a text.
\<close>

theorem tag_many_zero_batch_counterexample:
  "eligible ''text'' (doc ''a'') \<and>
   tag_many example_tagger [doc ''a''] ''text'' ''pos_tag'' 0 =
     ([TagTextAsync (doc ''a''), StopPoll], Some ZeroDivisionError) \<and>
   yielded (fst (tag_many example_tagger [doc ''a''] ''text'' ''pos_tag'' 0)) = []"
  by code_simp

section \<open>Batches and the process pool\<close>

lemma tag_loop_no_stop: "StopPoll \<notin> set (fst (tag_loop tagger dk pk batch_size i items jobs))"
proof (induction items arbitrary: i jobs)
  case Nil
  then show ?case by (auto simp: finalize_batch_eq)
next
  case (Cons item items)
  show ?case
  proof (cases "map_of item dk")
    case None
    with Cons.IH show ?thesis by simp
  next
    case (Some tx)
    obtain evs' err where l: "tag_loop tagger dk pk batch_size (Suc i) items [] = (evs', err)"
      by (cases "tag_loop tagger dk pk batch_size (Suc i) items []")
    obtain evs2 err2 where l2:
      "tag_loop tagger dk pk batch_size (Suc i) items (jobs @ [(item, tagger tx)]) = (evs2, err2)"
      by (cases "tag_loop tagger dk pk batch_size (Suc i) items (jobs @ [(item, tagger tx)])")
    from Cons.IH [of "Suc i" "[]"] l have 1: "StopPoll \<notin> set evs'" by simp
    from Cons.IH [of "Suc i" "jobs @ [(item, tagger tx)]"] l2 have 2: "StopPoll \<notin> set evs2" by simp
    from Cons.IH [of "Suc i" jobs] Some l l2 1 2 show ?thesis
      by (auto simp: finalize_batch_eq)
  qed
qed

lemma tag_many_stops:
  "\<exists>evs. fst (tag_many tagger items dk pk batch_size) = evs @ [StopPoll] \<and> StopPoll \<notin> set evs"
proof -
  obtain evs err where l: "tag_loop tagger dk pk batch_size 0 items [] = (evs, err)"
    by (cases "tag_loop tagger dk pk batch_size 0 items []")
  with tag_loop_no_stop [of tagger dk pk batch_size 0 items "[]"] show ?thesis
    by (simp add: tag_many_def)
qed

text \<open>
  C3 at five documents, the third one empty, with a batch size of 2. The first job is
  awaited alone, since index 0 is a multiple of every batch size; the empty document at
  index 2 is skipped together with the test of its index; so the second batch is awaited
  at index 4 with three jobs. No batch has two jobs.
\<close>

theorem tag_many_batches_at_example:
  "tag_many example_tagger [doc ''a'', doc ''b'', doc [], doc ''d'', doc ''e''] ''text'' ''pos_tag'' 2 =
     ([TagTextAsync (doc ''a''),
       WaitFinished (doc ''a''),
       Yield [(''text'', Text ''a''), (''pos_tag'', Tagged [Tag ''a'' ''NN'' ''a''])],
       TagTextAsync (doc ''b''),
       TagTextAsync (doc ''d''),
       TagTextAsync (doc ''e''),
       WaitFinished (doc ''b''),
       Yield [(''text'', Text ''b''), (''pos_tag'', Tagged [Tag ''b'' ''NN'' ''b''])],
       WaitFinished (doc ''d''),
       Yield [(''text'', Text ''d''), (''pos_tag'', Tagged [Tag ''d'' ''NN'' ''d''])],
       WaitFinished (doc ''e''),
       Yield [(''text'', Text ''e''), (''pos_tag'', Tagged [Tag ''e'' ''NN'' ''e''])],
       StopPoll],
      None)"
  by code_simp

section \<open>The two taggers under main\<close>

lemma pos_tag_main_tt:
  assumes "batch_size \<noteq> 0"
  shows "pos_tag_main tagger pos_tag_sents TT corpus document_key pos_tag_key batch_size =
     (map (\<lambda>item. Document (annotated pos_tag_key (item, tagger (the (map_of item document_key)))))
        (filter (eligible document_key) corpus), None)"
proof -
  obtain evs err where l: "tag_loop tagger document_key pos_tag_key batch_size 0 corpus [] = (evs, err)"
    by (cases "tag_loop tagger document_key pos_tag_key batch_size 0 corpus []")
  from tag_loop_yields [OF assms, of tagger document_key pos_tag_key 0 corpus "[]"] l
  show ?thesis by (simp add: pos_tag_main_def tag_many_def yielded_append comp_def)
qed

text \<open>
  C2 fails on the code: under \<^verbatim>\<open>--tagger nltk\<close>, for every corpus, document key, pos-tag
  key and batch size, the call of line 189 passes four positional arguments to
  \<^verbatim>\<open>NLTKPosTagger.tag_many\<close>, which raises TypeError; \<open>main\<close> writes no line. Under
  \<^verbatim>\<open>--tagger tt\<close> the same call yields the annotated documents.
\<close>

theorem pos_tag_main_nltk_raises:
  "pos_tag_main tagger pos_tag_sents NLTK corpus document_key pos_tag_key batch_size =
     ([], Some TypeError)"
  by (simp add: pos_tag_main_def nltk_tag_many_def)


section \<open>Training after every line\<close>

lemma read_row_fed:
  "read_row lib row = Inr (s, f) \<Longrightarrow> fed lib gazetteer row (ProcessSentence s f True gazetteer)"
  by (simp add: fed_def)

lemma build_training_set_events:
  "build_training_set lib gazetteer rows extractor = (evs, r) \<Longrightarrow>
     list_all2 (fed lib gazetteer) (take (length evs) rows) evs \<and>
     (case r of Inl _ \<Rightarrow> True | Inr _ \<Rightarrow> length evs = length rows)"
proof (induction rows arbitrary: extractor evs r)
  case Nil
  then show ?case by auto
next
  case (Cons row rows)
  show ?case
  proof (cases "read_row lib row")
    case (Inl e)
    with Cons.prems show ?thesis by auto
  next
    case (Inr sf)
    obtain s f where sf: "sf = (s, f)" by (cases sf)
    note rr = Inr [unfolded sf]
    show ?thesis
    proof (cases "process_sentence lib extractor s f True gazetteer")
      case (Inl e)
      with Cons.prems rr have "evs = [ProcessSentence s f True gazetteer]" "r = Inl e"
        by auto
      with read_row_fed [OF rr, of gazetteer] show ?thesis by simp
    next
      case ps: (Inr extractor')
      obtain evs' r' where b: "build_training_set lib gazetteer rows extractor' = (evs', r')"
        by (cases "build_training_set lib gazetteer rows extractor'")
      with Cons.prems rr ps have "evs = ProcessSentence s f True gazetteer # evs'" "r = r'"
        by auto
      with Cons.IH [OF b] read_row_fed [OF rr, of gazetteer] show ?thesis
        by (auto split: sum.splits)
    qed
  qed
qed

lemma build_training_set_no_fit:
  "Fit x y \<notin> set (fst (build_training_set lib gazetteer rows extractor))"
proof (induction rows arbitrary: extractor)
  case Nil
  then show ?case by simp
next
  case (Cons row rows)
  show ?case
  proof (cases "read_row lib row")
    case (Inl e)
    then show ?thesis by simp
  next
    case (Inr sf)
    obtain s f where sf: "sf = (s, f)" by (cases sf)
    show ?thesis
    proof (cases "process_sentence lib extractor s f True gazetteer")
      case (Inl e)
      with Inr sf show ?thesis by simp
    next
      case ps: (Inr extractor')
      obtain evs' r' where b: "build_training_set lib gazetteer rows extractor' = (evs', r')"
        by (cases "build_training_set lib gazetteer rows extractor'")
      with Inr sf ps Cons.IH [of extractor'] show ?thesis by simp
    qed
  qed
qed

text \<open>
  C5. Whenever the training command fits the classifier on \<open>x\<close> and \<open>y\<close>, the calls
  before it are one \<open>process_sentence\<close> per line of the training set, in order, each
  with the \<open>sentence\<close> and \<open>fes\<close> of the line's JSON; then \<open>get_features\<close> on the
  extractor these calls left, which returns \<open>x\<close> and \<open>y\<close>; then \<open>LinearSVC\<close> with the
  value of the option \<open>c\<close> under the key \<open>C\<close>.
\<close>

theorem train_main_fit:
  assumes "train_main lib training_set gazetteer kwargs extractor outfile = (evs, err)"
    and "Fit x y \<in> set evs"
  shows "list_all2 (fed lib gazetteer) training_set (take (length training_set) evs) \<and>
         (\<exists>extractor' c kw rest.
            snd (build_training_set lib gazetteer training_set extractor) = Inr extractor' \<and>
            get_features lib extractor' = Inr (x, y) \<and>
            map_of kwargs ''c'' = Some c \<and> map_of kw ''C'' = Some c \<and>
            drop (length training_set) evs = GetFeatures # LinearSVC kw # Fit x y # rest)"
proof -
  obtain pre r where b: "build_training_set lib gazetteer training_set extractor = (pre, r)"
    by (cases "build_training_set lib gazetteer training_set extractor")
  from build_training_set_no_fit [of x y lib gazetteer training_set extractor] b
  have nf: "Fit x y \<notin> set pre" by simp
  show ?thesis
  proof (cases r)
    case (Inl e)
    with assms b nf show ?thesis by (simp add: train_main_def)
  next
    case (Inr extractor')
    with build_training_set_events [OF b]
    have len: "length pre = length training_set" by simp
    with build_training_set_events [OF b]
    have fed: "list_all2 (fed lib gazetteer) training_set pre" by simp
    show ?thesis
    proof (cases "get_features lib extractor'")
      case (Inl e)
      with assms b Inr nf show ?thesis by (auto simp: train_main_def)
    next
      case gf: (Inr xy)
      obtain x' y' where xy: "xy = (x', y')" by (cases xy)
      show ?thesis
      proof (cases "map_of kwargs ''c''")
        case None
        with assms b Inr gf xy nf show ?thesis by (auto simp: train_main_def)
      next
        case (Some c)
        let ?kw = "AList.update ''C'' c (AList.delete ''c'' kwargs)"
        have kw: "map_of ?kw ''C'' = Some c" by (simp add: update_conv')
        from assms(1) b Inr gf xy Some obtain rest where
          evs: "evs = pre @ GetFeatures # LinearSVC ?kw # Fit x' y' # rest"
          and rest: "rest = [] \<or> rest = [Dump outfile]"
          by (auto simp: train_main_def Let_def split: sum.splits)
        with assms(2) nf have "x' = x" "y' = y" by auto
        with evs fed len b Inr gf xy Some kw show ?thesis by auto
      qed
    qed
  qed
qed

text \<open>The theorem at a training set of two lines with \<^verbatim>\<open>-c 0.5\<close>.\<close>

theorem train_main_fit_witness:
  "train_main example_library [''{1}'', ''{2}''] () [(''c'', ''0.5''), (''loss'', ''hinge'')] []
     ''model.pkl'' =
     ([ProcessSentence ''Rome is big'' ''Place'' True (),
       ProcessSentence ''It rained'' ''Time'' True (), GetFeatures,
       LinearSVC [(''loss'', ''hinge''), (''C'', ''0.5'')],
       Fit [''Rome is big'', ''It rained''] [''Place'', ''Time''],
       Dump ''model.pkl''], None) \<and>
   list_all2 (fed example_library ()) [''{1}'', ''{2}'']
     [ProcessSentence ''Rome is big'' ''Place'' True (),
      ProcessSentence ''It rained'' ''Time'' True ()] \<and>
   (\<exists>extractor' c kw rest.
      snd (build_training_set example_library () [''{1}'', ''{2}''] []) = Inr extractor' \<and>
      get_features example_library extractor' =
        Inr ([''Rome is big'', ''It rained''], [''Place'', ''Time'']) \<and>
      map_of [(''c'', ''0.5''), (''loss'', ''hinge'')] ''c'' = Some c \<and> map_of kw ''C'' = Some c \<and>
      [GetFeatures,
       LinearSVC [(''loss'', ''hinge''), (''C'', ''0.5'')],
       Fit [''Rome is big'', ''It rained''] [''Place'', ''Time''],
       Dump ''model.pkl''] =
      GetFeatures # LinearSVC kw # Fit [''Rome is big'', ''It rained''] [''Place'', ''Time''] # rest)"
proof -
  have run: "train_main example_library [''{1}'', ''{2}''] () [(''c'', ''0.5''), (''loss'', ''hinge'')] []
     ''model.pkl'' =
     ([ProcessSentence ''Rome is big'' ''Place'' True (),
       ProcessSentence ''It rained'' ''Time'' True (), GetFeatures,
       LinearSVC [(''loss'', ''hinge''), (''C'', ''0.5'')],
       Fit [''Rome is big'', ''It rained''] [''Place'', ''Time''],
       Dump ''model.pkl''], None)"
    by code_simp
  from train_main_fit [OF run, of "[''Rome is big'', ''It rained'']" "[''Place'', ''Time'']"] run
  show ?thesis by simp
qed

end
